theory Spec2Isabelle
  imports Complex_Main
begin

section \<open>Shared conventions\<close>

text \<open>
  The workstation is the script that defines the classes \<open>AudioEngine\<close>, \<open>Metronome\<close>,
  \<open>LoopStation\<close> and \<open>LoopSlot\<close>. Every method is a handler that runs to completion on
  the single JavaScript thread, so a method is a function from the object before the call
  to the object after it. A call that throws still leaves behind the mutations made
  before the throw: \<open>Inl (e, x)\<close> is "threw \<open>e\<close>, object left as \<open>x\<close>", \<open>Inr x\<close> is a
  normal return.
\<close>

datatype error = TypeError

type_synonym 'a result = "(error \<times> 'a) + 'a"

definition after :: "'a result \<Rightarrow> 'a" where
  "after r = (case r of Inl (e, x) \<Rightarrow> x | Inr x \<Rightarrow> x)"

definition threw :: "'a result \<Rightarrow> bool" where
  "threw r = (case r of Inl _ \<Rightarrow> True | Inr _ \<Rightarrow> False)"

section \<open>AudioEngine\<close>

text \<open>
  Of the engine only what the loop slots reach is kept: the audio context \<open>ctx\<close> (with
  its master gain, created in the same breath), the microphone node and the record
  destination, which is modelled by the list of nodes connected into it. \<open>alerts\<close> is the
  list of messages handed to \<open>window.alert\<close>.
\<close>

datatype audio_node = SynthBus | MicNode

record audio_engine =
  ctx :: "unit option"
  micNode :: "unit option"
  recordDest :: "audio_node list option"
  initialized :: bool
  alerts :: "string list"

definition new_AudioEngine :: audio_engine where
  "new_AudioEngine =
     \<lparr>ctx = None, micNode = None, recordDest = None, initialized = False, alerts = []\<rparr>"

text \<open>
  \<open>init\<close> builds the graph; the synth bus is connected to the record destination
  unconditionally. It ends by calling \<open>setupMic\<close> without awaiting it.
\<close>

definition init :: "audio_engine \<Rightarrow> audio_engine" where
  "init e =
     (if initialized e then e
      else e\<lparr>ctx := Some (), recordDest := Some [SynthBus], initialized := True\<rparr>)"

text \<open>
  \<open>setupMic\<close> continues when \<open>getUserMedia\<close> settles; the argument \<open>granted\<close> is the
  outcome. The whole body sits in a \<open>try\<close>, so a rejected request and a null dereference
  both end in the \<open>catch\<close>, which raises the alert.
\<close>

definition mic_alert :: "audio_engine \<Rightarrow> audio_engine" where
  "mic_alert e = e\<lparr>alerts := alerts e @ [''Microphone Access Required for Recording!'']\<rparr>"

definition setupMic :: "bool \<Rightarrow> audio_engine \<Rightarrow> audio_engine" where
  "setupMic granted e =
     (if \<not> granted then mic_alert e
      else case ctx e of
        None \<Rightarrow> mic_alert e
      | Some c \<Rightarrow>
          (let e1 = e\<lparr>micNode := Some ()\<rparr> in
           case recordDest e1 of
             None \<Rightarrow> mic_alert e1
           | Some ns \<Rightarrow> e1\<lparr>recordDest := Some (ns @ [MicNode])\<rparr>))"

section \<open>LoopSlot\<close>

datatype slot_state = Empty | Recording | Playing | Stopped

text \<open>
  A \<open>MediaRecorder\<close> is recording from \<open>start()\<close> on; \<open>stop()\<close> makes it inactive at once
  and queues the task that fires \<open>dataavailable\<close> and then \<open>stop\<close>; after that task it is
  inactive with nothing queued. \<open>stop()\<close> on an inactive recorder does nothing.
\<close>

datatype media_recorder = Rec_recording | Rec_stop_queued | Rec_inactive

definition MediaRecorder_stop :: "media_recorder \<Rightarrow> media_recorder" where
  "MediaRecorder_stop r = (if r = Rec_recording then Rec_stop_queued else r)"

type_synonym blob = "nat list"

record audio_element =
  src :: "blob option"
  currentTime :: real
  paused :: bool
  loop :: bool

text \<open>
  A chunk is a blob of bytes and \<open>new Blob(chunks)\<close> is their concatenation. The object URL
  made from a blob stands for that blob, so \<open>audioUrl\<close> holds the blob itself and \<open>None\<close>
  is \<open>null\<close>. \<open>recorders\<close> lists every \<open>MediaRecorder\<close> this slot has created, oldest
  first: their handlers close over the slot and stay alive after the field
  \<open>this.recorder\<close> has been overwritten, and the field always refers to the newest one.
  \<open>slider\<close> is the value of the slot's range input. The audio element is kept as its
  source, position and paused flag; \<open>audioEl.play()\<close> is taken to start playback.
\<close>

record loop_slot =
  index :: nat
  state :: slot_state
  chunks :: "blob list"
  audioUrl :: "blob option"
  audioEl :: audio_element
  gainNode :: "real option"
  recorders :: "media_recorder list"
  slider :: real

definition recorder :: "loop_slot \<Rightarrow> media_recorder option" where
  "recorder s = (if recorders s = [] then None else Some (last (recorders s)))"

definition new_LoopSlot :: "nat \<Rightarrow> loop_slot" where
  "new_LoopSlot i =
     \<lparr>index = i, state = Empty, chunks = [], audioUrl = None,
      audioEl = \<lparr>src = None, currentTime = 0, paused = True, loop = True\<rparr>,
      gainNode = None, recorders = [], slider = 1\<rparr>"

definition startRecording :: "audio_engine \<Rightarrow> loop_slot \<Rightarrow> loop_slot result" where
  "startRecording eng s =
     (let s1 = s\<lparr>chunks := []\<rparr> in
      case recordDest eng of
        None \<Rightarrow> Inl (TypeError, s1)
      | Some stream \<Rightarrow>
          Inr (s1\<lparr>recorders := recorders s1 @ [Rec_recording], state := Recording\<rparr>))"

definition stopRecording :: "loop_slot \<Rightarrow> loop_slot" where
  "stopRecording s =
     (case recorder s of
        None \<Rightarrow> s
      | Some r \<Rightarrow>
          if state s = Recording
          then s\<lparr>recorders := butlast (recorders s) @ [MediaRecorder_stop r]\<rparr>
          else s)"

definition LoopSlot_toggle :: "audio_engine \<Rightarrow> loop_slot \<Rightarrow> loop_slot result" where
  "LoopSlot_toggle eng s =
     (if state s = Recording then Inr (stopRecording s) else startRecording eng s)"

definition play :: "audio_engine \<Rightarrow> loop_slot \<Rightarrow> loop_slot result" where
  "play eng s =
     (case audioUrl s of
        None \<Rightarrow> Inr s
      | Some url \<Rightarrow>
          (case (if gainNode s = None
                 then (case ctx eng of
                         None \<Rightarrow> Inl (TypeError, s)
                       | Some c \<Rightarrow> Inr (s\<lparr>gainNode := Some (slider s)\<rparr>))
                 else Inr s) of
             Inl x \<Rightarrow> Inl x
           | Inr s1 \<Rightarrow>
               Inr (s1\<lparr>audioEl := (audioEl s1)\<lparr>src := Some url, currentTime := 0,
                                                paused := False\<rparr>,
                        state := Playing\<rparr>)))"

definition stop :: "loop_slot \<Rightarrow> loop_slot" where
  "stop s =
     (let s1 = s\<lparr>audioEl := (audioEl s)\<lparr>paused := True, currentTime := 0\<rparr>\<rparr> in
      if state s1 \<noteq> Empty then s1\<lparr>state := Stopped\<rparr> else s1)"

definition clear :: "loop_slot \<Rightarrow> loop_slot" where
  "clear s = (stop s)\<lparr>audioUrl := None, state := Empty\<rparr>"

text \<open>The two handlers installed on a recorder by \<open>startRecording\<close>.\<close>

definition ondataavailable :: "loop_slot \<Rightarrow> blob \<Rightarrow> loop_slot" where
  "ondataavailable s c = s\<lparr>chunks := chunks s @ [c]\<rparr>"

definition onstop :: "audio_engine \<Rightarrow> loop_slot \<Rightarrow> loop_slot result" where
  "onstop eng s = play eng (s\<lparr>audioUrl := Some (concat (chunks s)), state := Playing\<rparr>)"

section \<open>LoopStation\<close>

record loop_station =
  slots :: "loop_slot list"

definition new_LoopStation :: loop_station where
  "new_LoopStation = \<lparr>slots = [new_LoopSlot 0, new_LoopSlot 1, new_LoopSlot 2]\<rparr>"

text \<open>
  \<open>toggleRecord\<close>: the \<open>forEach\<close> touches each slot on its own, so it is a map over the
  positions; \<open>this.slots[idx]\<close> is \<open>undefined\<close> past the end, and calling \<open>toggle\<close> on it
  throws after the \<open>forEach\<close> has already run.
\<close>

definition stop_others :: "nat \<Rightarrow> loop_slot list \<Rightarrow> loop_slot list" where
  "stop_others idx sl =
     map (\<lambda>(i, s). if i \<noteq> idx \<and> state s = Recording then stopRecording s else s)
         (enumerate 0 sl)"

definition toggleRecord :: "audio_engine \<Rightarrow> nat \<Rightarrow> loop_station \<Rightarrow> loop_station result" where
  "toggleRecord eng idx st =
     (let sl = stop_others idx (slots st) in
      if idx < length sl
      then (case LoopSlot_toggle eng (sl ! idx) of
              Inl (e, s') \<Rightarrow> Inl (e, st\<lparr>slots := sl[idx := s']\<rparr>)
            | Inr s' \<Rightarrow> Inr (st\<lparr>slots := sl[idx := s']\<rparr>))
      else Inl (TypeError, st\<lparr>slots := sl\<rparr>))"

definition stopAll :: "loop_station \<Rightarrow> loop_station" where
  "stopAll st = st\<lparr>slots := map stop (slots st)\<rparr>"

text \<open>\<open>playAll\<close>: a \<open>forEach\<close> that a throwing \<open>play\<close> cuts short.\<close>

fun forEach_play :: "audio_engine \<Rightarrow> loop_slot list \<Rightarrow> loop_slot list result" where
  "forEach_play eng [] = Inr []"
| "forEach_play eng (s # ss) =
     (case play eng s of
        Inl (e, s') \<Rightarrow> Inl (e, s' # ss)
      | Inr s' \<Rightarrow>
          (case forEach_play eng ss of
             Inl (e, ss') \<Rightarrow> Inl (e, s' # ss')
           | Inr ss' \<Rightarrow> Inr (s' # ss')))"

definition playAll :: "audio_engine \<Rightarrow> loop_station \<Rightarrow> loop_station result" where
  "playAll eng st =
     (case forEach_play eng (slots st) of
        Inl (e, sl) \<Rightarrow> Inl (e, st\<lparr>slots := sl\<rparr>)
      | Inr sl \<Rightarrow> Inr (st\<lparr>slots := sl\<rparr>))"

section \<open>Callbacks of the capture sessions\<close>

text \<open>
  Besides the three buttons (record toggle, stop all, play all), the station is driven by
  the events of the recorders its slots have created. \<open>DataAvailable i k c\<close>: recorder
  \<open>k\<close> of slot \<open>i\<close> fires \<open>dataavailable\<close> with chunk \<open>c\<close>, which a recorder does
  while it records or has its stop task queued. \<open>RecorderStopped i k\<close>: the queued stop
  task of that recorder fires \<open>stop\<close>. An exception inside a handler is reported and the
  state stays as the handler left it.
\<close>

datatype event =
    ToggleRecord nat
  | StopAll
  | PlayAll
  | DataAvailable nat nat blob
  | RecorderStopped nat nat

definition deliver_data :: "nat \<Rightarrow> blob \<Rightarrow> loop_slot \<Rightarrow> loop_slot" where
  "deliver_data k c s =
     (if k < length (recorders s) \<and> recorders s ! k \<noteq> Rec_inactive
      then ondataavailable s c else s)"

definition deliver_stop :: "audio_engine \<Rightarrow> nat \<Rightarrow> loop_slot \<Rightarrow> loop_slot" where
  "deliver_stop eng k s =
     (if k < length (recorders s) \<and> recorders s ! k = Rec_stop_queued
      then after (onstop eng (s\<lparr>recorders := (recorders s)[k := Rec_inactive]\<rparr>))
      else s)"

fun dispatch :: "audio_engine \<Rightarrow> loop_station \<Rightarrow> event \<Rightarrow> loop_station" where
  "dispatch eng st (ToggleRecord idx) = after (toggleRecord eng idx st)"
| "dispatch eng st StopAll = stopAll st"
| "dispatch eng st PlayAll = after (playAll eng st)"
| "dispatch eng st (DataAvailable i k c) =
     (if i < length (slots st)
      then st\<lparr>slots := (slots st)[i := deliver_data k c (slots st ! i)]\<rparr> else st)"
| "dispatch eng st (RecorderStopped i k) =
     (if i < length (slots st)
      then st\<lparr>slots := (slots st)[i := deliver_stop eng k (slots st ! i)]\<rparr> else st)"

definition run :: "audio_engine \<Rightarrow> loop_station \<Rightarrow> event list \<Rightarrow> loop_station" where
  "run eng st evs = foldl (dispatch eng) st evs"

text \<open>
  Counting. \<open>recording_count\<close> is the number of slots in the Recording state.
  \<open>sessions_recording s\<close> is the number of recorders slot \<open>s\<close> has created, over all its
  capture sessions, that are in the \<open>recording\<close> state, and \<open>recording_recorders\<close> is
  their number over the whole station.
\<close>

definition recording_count :: "loop_station \<Rightarrow> nat" where
  "recording_count st = length (filter (\<lambda>s. state s = Recording) (slots st))"

definition sessions_recording :: "loop_slot \<Rightarrow> nat" where
  "sessions_recording s = length (filter (\<lambda>r. r = Rec_recording) (recorders s))"

definition recording_recorders :: "loop_station \<Rightarrow> nat" where
  "recording_recorders st = sum_list (map sessions_recording (slots st))"

text \<open>Engines and stations used as concrete inputs.\<close>

definition engine_with_mic :: audio_engine where
  "engine_with_mic = setupMic True (init new_AudioEngine)"

definition engine_mic_denied :: audio_engine where
  "engine_mic_denied = setupMic False (init new_AudioEngine)"

text \<open>
  Slot 0 records two chunks, is stopped and finalised; then slot 1 starts recording;
  slot 2 is never touched.
\<close>

definition demo_events :: "event list" where
  "demo_events =
     [ToggleRecord 0, DataAvailable 0 0 [1, 2], DataAvailable 0 0 [3], ToggleRecord 0,
      RecorderStopped 0 0, ToggleRecord 1]"

definition demo_station :: loop_station where
  "demo_station = run engine_with_mic new_LoopStation demo_events"

text \<open>A slot that a stop-all caught in the middle of its first recording.\<close>

definition interrupted_station :: loop_station where
  "interrupted_station = run engine_with_mic new_LoopStation [ToggleRecord 0, StopAll]"

text \<open>
  The events of the record button and of the recorders: every event but stop-all and
  play-all.
\<close>

definition record_event :: "event \<Rightarrow> bool" where
  "record_event e = (case e of StopAll \<Rightarrow> False | PlayAll \<Rightarrow> False | _ \<Rightarrow> True)"

text \<open>
  The capture sessions of a slot are in order when every session before the current one
  has finished, and the slot is in the Recording state exactly when the recorder of its
  current session is recording or has its stop task queued.
\<close>

definition session_inv :: "loop_slot \<Rightarrow> bool" where
  "session_inv s =
     (list_all (\<lambda>r. r = Rec_inactive) (butlast (recorders s)) \<and>
      (state s = Recording) =
        (recorder s = Some Rec_recording \<or> recorder s = Some Rec_stop_queued))"

text \<open>A slot in the Empty state holds no recorded asset.\<close>

definition empty_ok :: "loop_slot \<Rightarrow> bool" where
  "empty_ok s = (state s = Empty \<longrightarrow> audioUrl s = None)"

section \<open>Metronome\<close>

text \<open>
  JavaScript numbers are IEEE-754 doubles, and the metronome is modelled twice. The
  definitions of this section compute in exact arithmetic on the reals. They are used
  for one question only, how many triggers a start followed by a stop ten milliseconds
  later emits: there the test of the loop is decided by a margin of tenths of a second,
  and the last section proves the same count for the model on doubles. The definitions
  of the section after this one, named with the suffix \<open>64\<close>, round every quotient and every
  sum to the nearest double, as the script does; the questions about the next event time
  and about the spacing of the triggers are settled on them. \<open>bpm\<close> is never zero in the
  script (the constructor sets 120 and nothing assigns it).
\<close>

record metronome =
  isPlaying :: bool
  bpm :: real
  nextNoteTime :: real
  timerID :: "nat option"
  lookahead :: real
  scheduleAheadTime :: real


text \<open>
  The metronome acts on two things outside itself: the voice graph, modelled by the list
  \<open>triggers\<close> of the times handed to \<open>osc.start\<close> in \<open>scheduleNote\<close>, and the window's timers,
  modelled by the list \<open>timeouts\<close> of the ids still pending and the last id handed out.
  Every handler receives the reading \<open>now\<close> of \<open>ctx.currentTime\<close>, which does not change
  while a handler runs.
\<close>

record metro_world =
  metro :: metronome
  triggers :: "real list"
  timeouts :: "nat list"
  last_id :: nat


definition nextNote :: "metronome \<Rightarrow> metronome" where
  "nextNote m = (let secondsPerBeat = 60 / bpm m
                 in m\<lparr>nextNoteTime := nextNoteTime m + secondsPerBeat\<rparr>)"

definition scheduleNote :: "real \<Rightarrow> real list \<Rightarrow> real list" where
  "scheduleNote time ns = ns @ [time]"



definition setTimeout :: "metro_world \<Rightarrow> nat \<times> metro_world" where
  "setTimeout w = (let i = Suc (last_id w)
                   in (i, w\<lparr>timeouts := timeouts w @ [i], last_id := i\<rparr>))"

definition clearTimeout :: "nat option \<Rightarrow> metro_world \<Rightarrow> metro_world" where
  "clearTimeout tid w =
     (case tid of None \<Rightarrow> w | Some i \<Rightarrow> w\<lparr>timeouts := removeAll i (timeouts w)\<rparr>)"






text \<open>
  The trigger times emitted since the world \<open>w\<close>, and the property that consecutive
  trigger times are exactly \<open>d\<close> apart.
\<close>

definition emitted_since :: "metro_world \<Rightarrow> metro_world \<Rightarrow> real list" where
  "emitted_since w w' = drop (length (triggers w)) (triggers w')"

fun evenly_spaced :: "real \<Rightarrow> real list \<Rightarrow> bool" where
  "evenly_spaced d (x # y # ts) = (y - x = d \<and> evenly_spaced d (y # ts))"
| "evenly_spaced d ts = True"

text \<open>
  \<open>within_lookahead now w\<close>: the next event time lies in the half-open interval that
  starts at the clock reading and is one lookahead window long.
\<close>

definition within_lookahead :: "real \<Rightarrow> metro_world \<Rightarrow> bool" where
  "within_lookahead now w =
     (now \<le> nextNoteTime (metro w) \<and>
      nextNoteTime (metro w) < now + scheduleAheadTime (metro w))"

text \<open>
  \<open>beats m j\<close> are the next \<open>j\<close> beat times of the metronome \<open>m\<close> in exact arithmetic.
  A world is armed when the timeout held in \<open>timerID\<close> is pending.
\<close>

definition beats :: "metronome \<Rightarrow> nat \<Rightarrow> real list" where
  "beats m j = map (\<lambda>k. nextNoteTime m + real k * (60 / bpm m)) [0..<j]"

definition armed :: "metro_world \<Rightarrow> bool" where
  "armed w = (case timerID (metro w) of None \<Rightarrow> False | Some i \<Rightarrow> i \<in> set (timeouts w))"


section \<open>Double-precision arithmetic\<close>

text \<open>
  \<open>fl64 x\<close> is the double nearest to the real number \<open>x\<close>, a tie going to the even
  significand: \<open>expo x\<close> is the exponent of the binade of \<open>x\<close>, the significand has 53
  bits, so \<open>x\<close> is scaled by \<open>2 powi (expo x - 52)\<close> and rounded to an integer by \<open>rte\<close>.
  The range of the exponent is not modelled (no overflow to infinity, no subnormal
  numbers): the numbers rounded here are clock readings in seconds, beat lengths and
  their sums. An arithmetic operation of the script on doubles \<open>a\<close> and \<open>b\<close> is \<open>fl64\<close> of
  the exact result: \<open>a + b\<close> is \<open>fl64 (a + b)\<close>, \<open>60.0 / b\<close> is \<open>fl64 (60 / b)\<close>, and the
  literal \<open>0.1\<close> is \<open>fl64 (1 / 10)\<close>. \<open>ulp x\<close> is the spacing of the doubles in the binade
  of \<open>x\<close>.
\<close>

definition expo :: "real \<Rightarrow> int" where
  "expo x = (if x \<le> 0 then 0 else \<lfloor>log 2 x\<rfloor>)"

definition rte :: "real \<Rightarrow> int" where
  "rte y = (let f = \<lfloor>y\<rfloor> in
            if y - of_int f < 1 / 2 then f
            else if 1 / 2 < y - of_int f then f + 1
            else if even f then f else f + 1)"

definition fl64 :: "real \<Rightarrow> real" where
  "fl64 x = (if x = 0 then 0
             else let u = 2 powi (expo \<bar>x\<bar> - 52)
                  in sgn x * (of_int (rte (\<bar>x\<bar> / u)) * u))"

definition ulp :: "real \<Rightarrow> real" where
  "ulp x = 2 powi (expo x - 52)"

section \<open>Metronome on doubles\<close>

text \<open>
  The metronome again, with the arithmetic of the script: the window literal \<open>0.1\<close> of
  the constructor, the quotient \<open>60.0 / this.bpm\<close> and the sum of \<open>nextNote\<close>, and the
  sum in the test of the \<open>while\<close> loop of \<open>scheduler\<close> are rounded. The clock readings
  handed to the handlers are the values of \<open>ctx.currentTime\<close>. The records, the timers and
  \<open>scheduleNote\<close> are those of the section before.
\<close>

definition new_Metronome64 :: metronome where
  "new_Metronome64 =
     \<lparr>isPlaying = False, bpm = 120, nextNoteTime = 0, timerID = None,
      lookahead = 25, scheduleAheadTime = fl64 (1 / 10)\<rparr>"

definition new_world64 :: metro_world where
  "new_world64 = \<lparr>metro = new_Metronome64, triggers = [], timeouts = [], last_id = 0\<rparr>"

definition nextNote64 :: "metronome \<Rightarrow> metronome" where
  "nextNote64 m = (let secondsPerBeat = fl64 (60 / bpm m)
                   in m\<lparr>nextNoteTime := fl64 (nextNoteTime m + secondsPerBeat)\<rparr>)"

text \<open>The \<open>while\<close> loop of \<open>scheduler\<close>; \<open>None\<close> is a loop that never ends.\<close>

partial_function (option) scheduler_loop64 ::
  "real \<Rightarrow> metronome \<Rightarrow> real list \<Rightarrow> (metronome \<times> real list) option" where
  "scheduler_loop64 now m ns =
     (if nextNoteTime m < fl64 (now + scheduleAheadTime m)
      then scheduler_loop64 now (nextNote64 m) (scheduleNote (nextNoteTime m) ns)
      else Some (m, ns))"

declare scheduler_loop64.simps [code]

definition scheduler64 :: "real \<Rightarrow> metro_world \<Rightarrow> metro_world option" where
  "scheduler64 now w =
     (case scheduler_loop64 now (metro w) (triggers w) of
        None \<Rightarrow> None
      | Some (m, ns) \<Rightarrow>
          (case setTimeout (w\<lparr>metro := m, triggers := ns\<rparr>) of
             (i, w') \<Rightarrow> Some (w'\<lparr>metro := (metro w')\<lparr>timerID := Some i\<rparr>\<rparr>)))"

definition Metronome_toggle64 :: "real \<Rightarrow> metro_world \<Rightarrow> metro_world option" where
  "Metronome_toggle64 now w =
     (let m = (metro w)\<lparr>isPlaying := \<not> isPlaying (metro w)\<rparr> in
      if isPlaying m
      then scheduler64 now (w\<lparr>metro := m\<lparr>nextNoteTime := now\<rparr>\<rparr>)
      else Some (clearTimeout (timerID m) (w\<lparr>metro := m\<rparr>)))"

definition timeout_fires64 :: "nat \<Rightarrow> real \<Rightarrow> metro_world \<Rightarrow> metro_world option" where
  "timeout_fires64 i now w =
     (if i \<in> set (timeouts w)
      then scheduler64 now (w\<lparr>timeouts := removeAll i (timeouts w)\<rparr>)
      else Some w)"

definition tick64 :: "real \<Rightarrow> metro_world \<Rightarrow> metro_world option" where
  "tick64 now w =
     (case timerID (metro w) of None \<Rightarrow> Some w | Some i \<Rightarrow> timeout_fires64 i now w)"

fun passes64 :: "metro_world \<Rightarrow> real list \<Rightarrow> metro_world list option" where
  "passes64 w [] = Some []"
| "passes64 w (now # nows) =
     (case tick64 now w of
        None \<Rightarrow> None
      | Some w' \<Rightarrow> (case passes64 w' nows of None \<Rightarrow> None | Some ws \<Rightarrow> Some (w' # ws)))"

text \<open>
  \<open>advance d k t\<close> is the time reached from \<open>t\<close> by \<open>k\<close> additions of \<open>d\<close>, each rounded;
  \<open>beats64 m j\<close> are the next \<open>j\<close> beat times of the metronome \<open>m\<close>.
\<close>

primrec advance :: "real \<Rightarrow> nat \<Rightarrow> real \<Rightarrow> real" where
  "advance d 0 t = t"
| "advance d (Suc k) t = fl64 (advance d k t + d)"

definition beats64 :: "metronome \<Rightarrow> nat \<Rightarrow> real list" where
  "beats64 m j = map (\<lambda>k. advance (fl64 (60 / bpm m)) k (nextNoteTime m)) [0..<j]"

text \<open>
  \<open>rounded_steps d ts\<close>: every time of the list is the rounded sum of the one before it
  and \<open>d\<close>. \<open>within_rounding d ts\<close>: the gap between consecutive times of the list
  differs from \<open>d\<close> by at most the rounding error of one addition, \<open>2\<^sup>-\<^sup>5\<^sup>3\<close> relative to
  the sum.
\<close>

fun rounded_steps :: "real \<Rightarrow> real list \<Rightarrow> bool" where
  "rounded_steps d (x # y # ts) = (y = fl64 (x + d) \<and> rounded_steps d (y # ts))"
| "rounded_steps d ts = True"

fun within_rounding :: "real \<Rightarrow> real list \<Rightarrow> bool" where
  "within_rounding d (x # y # ts) =
     (\<bar>y - x - d\<bar> \<le> (x + d) / 2 ^ 53 \<and> within_rounding d (y # ts))"
| "within_rounding d ts = True"

text \<open>
  \<open>bounds64 now w\<close>: the next event time is at least the rounded end of the lookahead
  window of the clock reading \<open>now\<close>, and at most one rounded beat after it.
\<close>

definition bounds64 :: "real \<Rightarrow> metro_world \<Rightarrow> bool" where
  "bounds64 now w =
     (fl64 (now + scheduleAheadTime (metro w)) \<le> nextNoteTime (metro w) \<and>
      nextNoteTime (metro w)
        \<le> fl64 (fl64 (now + scheduleAheadTime (metro w)) + fl64 (60 / bpm (metro w))))"

text \<open>
  \<open>in_range now m\<close>: the clock reading is not negative and the end of the lookahead
  window is at most \<open>2\<^sup>5\<^sup>1\<close> beats after zero. Inside this range an addition of one
  beat moves the next event time by at least half a beat, so the loop of \<open>scheduler\<close>
  ends.
\<close>

definition in_range :: "real \<Rightarrow> metronome \<Rightarrow> bool" where
  "in_range now m =
     (0 \<le> now \<and> now + scheduleAheadTime m \<le> 2 ^ 51 * fl64 (60 / bpm m))"

text \<open>
  A world is on the grid of a start (from world \<open>w0\<close>, at clock reading \<open>t0\<close>) when the
  triggers emitted since are the first beats counted from \<open>t0\<close>, the next event time is
  the beat after them, and the tempo and the window are those of \<open>w0\<close>.
\<close>

definition on_grid64 :: "metro_world \<Rightarrow> real \<Rightarrow> metro_world \<Rightarrow> bool" where
  "on_grid64 w0 t0 w =
     (\<exists>n. triggers w = triggers w0 @ beats64 ((metro w0)\<lparr>nextNoteTime := t0\<rparr>) n \<and>
          nextNoteTime (metro w) = advance (fl64 (60 / bpm (metro w0))) n t0 \<and>
          bpm (metro w) = bpm (metro w0) \<and>
          scheduleAheadTime (metro w) = scheduleAheadTime (metro w0))"

text \<open>
  The constructed metronome after a start at \<open>t0\<close> that has emitted the first beat and
  nothing else, on doubles.
\<close>

definition first_beat_only64 :: "real \<Rightarrow> metro_world \<Rightarrow> bool" where
  "first_beat_only64 t0 w =
     (metro w = new_Metronome64\<lparr>isPlaying := True, nextNoteTime := fl64 (t0 + 1 / 2),
                                 timerID := Some (last_id w)\<rparr> \<and>
      triggers w = [t0] \<and> timeouts w = [last_id w])"

section \<open>Properties of the loop station\<close>

subsection \<open>The concrete engines and stations\<close>

lemma engine_with_mic_eq:
  "engine_with_mic = \<lparr>ctx = Some (), micNode = Some (), recordDest = Some [SynthBus, MicNode],
     initialized = True, alerts = []\<rparr>"
  by (simp add: engine_with_mic_def init_def new_AudioEngine_def setupMic_def)

lemma engine_mic_denied_eq:
  "engine_mic_denied = \<lparr>ctx = Some (), micNode = None, recordDest = Some [SynthBus],
     initialized = True, alerts = [''Microphone Access Required for Recording!'']\<rparr>"
  by (simp add: engine_mic_denied_def init_def new_AudioEngine_def setupMic_def mic_alert_def)

lemma after_simps [simp]: "after (Inr x) = x" "after (Inl (e, x)) = x"
  by (simp_all add: after_def)

lemmas slot_defs = startRecording_def stopRecording_def LoopSlot_toggle_def play_def stop_def
  clear_def ondataavailable_def onstop_def recorder_def MediaRecorder_stop_def new_LoopSlot_def
  after_def deliver_data_def deliver_stop_def

lemmas station_defs = toggleRecord_def stop_others_def stopAll_def playAll_def run_def
  new_LoopStation_def

lemma demo_station_eq:
  "demo_station = \<lparr>slots =
    [\<lparr>index = 0, state = Playing, chunks = [[1, 2], [3]], audioUrl = Some [1, 2, 3],
      audioEl = \<lparr>src = Some [1, 2, 3], currentTime = 0, paused = False, loop = True\<rparr>,
      gainNode = Some 1, recorders = [Rec_inactive], slider = 1\<rparr>,
     \<lparr>index = 1, state = Recording, chunks = [], audioUrl = None,
      audioEl = \<lparr>src = None, currentTime = 0, paused = True, loop = True\<rparr>,
      gainNode = None, recorders = [Rec_recording], slider = 1\<rparr>,
     \<lparr>index = 2, state = Empty, chunks = [], audioUrl = None,
      audioEl = \<lparr>src = None, currentTime = 0, paused = True, loop = True\<rparr>,
      gainNode = None, recorders = [], slider = 1\<rparr>]\<rparr>"
  by (simp add: demo_station_def demo_events_def engine_with_mic_eq slot_defs station_defs)

lemma interrupted_station_eq:
  "interrupted_station = \<lparr>slots =
    [\<lparr>index = 0, state = Stopped, chunks = [], audioUrl = None,
      audioEl = \<lparr>src = None, currentTime = 0, paused = True, loop = True\<rparr>,
      gainNode = None, recorders = [Rec_recording], slider = 1\<rparr>,
     \<lparr>index = 1, state = Empty, chunks = [], audioUrl = None,
      audioEl = \<lparr>src = None, currentTime = 0, paused = True, loop = True\<rparr>,
      gainNode = None, recorders = [], slider = 1\<rparr>,
     \<lparr>index = 2, state = Empty, chunks = [], audioUrl = None,
      audioEl = \<lparr>src = None, currentTime = 0, paused = True, loop = True\<rparr>,
      gainNode = None, recorders = [], slider = 1\<rparr>]\<rparr>"
  by (simp add: interrupted_station_def engine_with_mic_eq slot_defs station_defs)

subsection \<open>Single slot facts\<close>

lemma stop_state: "state (stop s) = (if state s = Empty then Empty else Stopped)"
  by (simp add: stop_def Let_def)

lemma play_no_asset: "audioUrl s = None \<Longrightarrow> play eng s = Inr s"
  by (simp add: play_def)

lemma play_with_asset:
  assumes "audioUrl s = Some u" and "ctx eng = Some c"
  shows "play eng s =
    Inr (s\<lparr>gainNode := Some (case gainNode s of None \<Rightarrow> slider s | Some g \<Rightarrow> g),
           audioEl := (audioEl s)\<lparr>src := Some u, currentTime := 0, paused := False\<rparr>,
           state := Playing\<rparr>)"
  using assms by (cases "gainNode s") (simp_all add: play_def)

lemma play_state:
  "state (after (play eng s)) = state s \<or> state (after (play eng s)) = Playing"
  by (auto simp: play_def after_def split: option.splits)

lemma play_recorders: "recorders (after (play eng s)) = recorders s"
  by (auto simp: play_def after_def split: option.splits)

lemma play_unchanged_or_playing:
  "after (play eng s) = s \<or> state (after (play eng s)) = Playing"
  by (auto simp: play_def after_def split: option.splits)

lemma receive_chunks [simp]: "chunks (foldl ondataavailable s cs) = chunks s @ cs"
  by (induction cs arbitrary: s) (simp_all add: ondataavailable_def)

lemma receive_other [simp]:
  "state (foldl ondataavailable s cs) = state s"
  "recorders (foldl ondataavailable s cs) = recorders s"
  "audioUrl (foldl ondataavailable s cs) = audioUrl s"
  "audioEl (foldl ondataavailable s cs) = audioEl s"
  "gainNode (foldl ondataavailable s cs) = gainNode s"
  "slider (foldl ondataavailable s cs) = slider s"
  "index (foldl ondataavailable s cs) = index s"
  by (induction cs arbitrary: s) (simp_all add: ondataavailable_def)

lemma recorder_receive [simp]: "recorder (foldl ondataavailable s cs) = recorder s"
  by (simp add: recorder_def)

subsection \<open>forEach over play\<close>

lemma forEach_play_length: "length (after (forEach_play eng ss)) = length ss"
  by (induction ss) (auto simp: after_def split: sum.splits prod.splits)

lemma forEach_play_nth:
  "i < length ss \<Longrightarrow>
     after (forEach_play eng ss) ! i = ss ! i \<or>
     after (forEach_play eng ss) ! i = after (play eng (ss ! i))"
proof (induction ss arbitrary: i)
  case Nil
  then show ?case by simp
next
  case (Cons s ss)
  show ?case
  proof (cases i)
    case 0
    then show ?thesis by (auto simp: after_def split: sum.splits prod.splits)
  next
    case (Suc j)
    with Cons.prems have "j < length ss" by simp
    from Cons.IH [OF this] Suc show ?thesis
      by (auto simp: after_def split: sum.splits prod.splits)
  qed
qed

lemma forEach_play_no_throw:
  "ctx eng = Some c \<Longrightarrow> forEach_play eng ss = Inr (map (\<lambda>s. after (play eng s)) ss)"
proof (induction ss)
  case Nil
  then show ?case by simp
next
  case (Cons s ss)
  have "\<exists>s'. play eng s = Inr s'"
    using Cons.prems by (auto simp: play_def split: option.splits)
  with Cons show ?case by (auto simp: after_def)
qed

lemma playAll_slots: "slots (after (playAll eng st)) = after (forEach_play eng (slots st))"
  by (auto simp: playAll_def after_def split: sum.splits prod.splits)

subsection \<open>Invariants of the station\<close>

lemma filter_count_pointwise:
  "length xs = length ys \<Longrightarrow> (\<forall>i<length xs. P (ys ! i) \<longrightarrow> P (xs ! i)) \<Longrightarrow>
     length (filter P ys) \<le> length (filter P xs)"
proof (induction xs ys rule: list_induct2)
  case Nil
  then show ?case by simp
next
  case (Cons x xs y ys)
  from Cons.prems have head: "P y \<longrightarrow> P x" by force
  from Cons.prems have "\<forall>i<length xs. P (ys ! i) \<longrightarrow> P (xs ! i)" by force
  then have "length (filter P ys) \<le> length (filter P xs)" by (rule Cons.IH)
  with head show ?case by simp
qed

lemma filter_count_update:
  assumes "P y \<Longrightarrow> P (xs ! i)"
  shows "length (filter P (xs[i := y])) \<le> length (filter P xs)"
proof (rule filter_count_pointwise)
  show "length xs = length (xs[i := y])" by simp
  show "\<forall>j<length xs. P (xs[i := y] ! j) \<longrightarrow> P (xs ! j)"
  proof (intro allI impI)
    fix j
    assume "j < length xs" and "P (xs[i := y] ! j)"
    with assms show "P (xs ! j)" by (cases "j = i") simp_all
  qed
qed

lemma stop_others_length [simp]: "length (stop_others idx sl) = length sl"
  by (simp add: stop_others_def)

lemma stop_others_nth:
  "i < length sl \<Longrightarrow>
     stop_others idx sl ! i =
       (if i \<noteq> idx \<and> state (sl ! i) = Recording then stopRecording (sl ! i) else sl ! i)"
  by (simp add: stop_others_def nth_enumerate_eq)

lemma stopRecording_state [simp]: "state (stopRecording s) = state s"
  by (simp add: stopRecording_def split: option.splits)

lemma onstop_state: "state (after (onstop eng s)) = Playing"
  using play_state [of eng "s\<lparr>audioUrl := Some (concat (chunks s)), state := Playing\<rparr>"]
  by (auto simp: onstop_def)

lemma toggleRecord_slots:
  "slots (after (toggleRecord eng idx st)) =
     (if idx < length (slots st)
      then (stop_others idx (slots st))
             [idx := after (LoopSlot_toggle eng (stop_others idx (slots st) ! idx))]
      else stop_others idx (slots st))"
  by (auto simp: toggleRecord_def after_def Let_def split: sum.splits prod.splits)

lemma toggleRecord_length [simp]:
  "length (slots (after (toggleRecord eng idx st))) = length (slots st)"
  by (simp add: toggleRecord_slots)

lemma run_snoc: "run eng st (evs @ [e]) = dispatch eng (run eng st evs) e"
  by (simp add: run_def)

lemma dispatch_empty_ok:
  assumes "list_all empty_ok (slots st)"
  shows "list_all empty_ok (slots (dispatch eng st e))"
proof (cases e)
  case (ToggleRecord idx)
  have a: "list_all empty_ok (stop_others idx (slots st))"
    using assms by (auto simp: list_all_length stop_others_nth empty_ok_def)
  have b: "empty_ok (after (LoopSlot_toggle eng s))" if "empty_ok s" for s
    using that
    by (cases "recordDest eng")
      (auto simp: LoopSlot_toggle_def startRecording_def after_def empty_ok_def)
  from a b have "list_all empty_ok (slots (after (toggleRecord eng idx st)))"
    by (auto simp: toggleRecord_slots list_all_length nth_list_update)
  with ToggleRecord show ?thesis by simp
next
  case StopAll
  with assms show ?thesis
    by (auto simp: stopAll_def list_all_length empty_ok_def stop_state stop_def Let_def)
next
  case PlayAll
  have "empty_ok (after (play eng s))" if "empty_ok s" for s
    using that play_unchanged_or_playing [of eng s] by (auto simp: empty_ok_def)
  then have "empty_ok (after (forEach_play eng (slots st)) ! i)" if "i < length (slots st)" for i
    using forEach_play_nth [OF that, of eng] assms that by (auto simp: list_all_length)
  with PlayAll show ?thesis
    by (simp add: playAll_slots list_all_length forEach_play_length)
next
  case (DataAvailable i k c)
  have "empty_ok (deliver_data k c s)" if "empty_ok s" for s
    using that by (simp add: deliver_data_def ondataavailable_def empty_ok_def)
  with DataAvailable assms show ?thesis
    by (auto simp: list_all_length nth_list_update)
next
  case (RecorderStopped i k)
  have "empty_ok (deliver_stop eng k s)" if "empty_ok s" for s
    using that by (simp add: deliver_stop_def empty_ok_def onstop_state)
  with RecorderStopped assms show ?thesis
    by (auto simp: list_all_length nth_list_update)
qed

lemma run_empty_ok:
  "list_all empty_ok (slots st) \<Longrightarrow> list_all empty_ok (slots (run eng st evs))"
  by (induction evs rule: rev_induct) (simp_all add: run_def dispatch_empty_ok)

lemma new_LoopStation_empty_ok: "list_all empty_ok (slots new_LoopStation)"
  by (simp add: new_LoopStation_def empty_ok_def new_LoopSlot_def)

subsection \<open>One recorder at a time\<close>

lemma sum_list_pointwise:
  "length xs = length ys \<Longrightarrow> (\<forall>i<length xs. f (ys ! i) \<le> f (xs ! i)) \<Longrightarrow>
     sum_list (map f ys) \<le> (sum_list (map f xs) :: nat)"
proof (induction xs ys rule: list_induct2)
  case Nil
  then show ?case by simp
next
  case (Cons x xs y ys)
  from Cons.prems have head: "f y \<le> f x" by force
  from Cons.prems have "\<forall>i<length xs. f (ys ! i) \<le> f (xs ! i)" by force
  then have "sum_list (map f ys) \<le> sum_list (map f xs)" by (rule Cons.IH)
  with head show ?case by simp
qed

lemma sum_list_update_le:
  assumes "f y \<le> (f (xs ! i) :: nat)"
  shows "sum_list (map f (xs[i := y])) \<le> sum_list (map f xs)"
proof (rule sum_list_pointwise)
  show "length xs = length (xs[i := y])" by simp
  show "\<forall>j<length xs. f (xs[i := y] ! j) \<le> f (xs ! j)"
  proof (intro allI impI)
    fix j
    assume "j < length xs"
    with assms show "f (xs[i := y] ! j) \<le> f (xs ! j)" by (cases "j = i") simp_all
  qed
qed

lemma sum_list_one:
  "(\<forall>i<length xs. i \<noteq> idx \<longrightarrow> f (xs ! i) = 0) \<Longrightarrow>
   (idx < length xs \<longrightarrow> f (xs ! idx) \<le> 1) \<Longrightarrow> sum_list (map f xs) \<le> (1 :: nat)"
proof (induction xs arbitrary: idx)
  case Nil
  then show ?case by simp
next
  case (Cons x xs)
  show ?case
  proof (cases idx)
    case 0
    with Cons.prems(1) have "\<forall>i<length xs. f (xs ! i) = 0" by force
    then have "sum_list (map f xs) = 0" by (auto simp: in_set_conv_nth)
    moreover from 0 Cons.prems(2) have "f x \<le> 1" by simp
    ultimately show ?thesis by (simp del: sum_list_eq_0_iff)
  next
    case (Suc j)
    with Cons.prems(1) have "f x = 0" by force
    moreover from Suc Cons.prems(1) have "\<forall>i<length xs. i \<noteq> j \<longrightarrow> f (xs ! i) = 0" by force
    moreover from Suc Cons.prems(2) have "j < length xs \<longrightarrow> f (xs ! j) \<le> 1" by simp
    ultimately show ?thesis using Cons.IH [of j] by simp
  qed
qed

lemma sum_list_indicator:
  "(\<forall>x \<in> set xs. f x = (if P x then 1 else 0)) \<Longrightarrow>
     sum_list (map f xs) = (length (filter P xs) :: nat)"
  by (induction xs) simp_all

lemma session_inv_count:
  assumes "session_inv s"
  shows "sessions_recording s = (if recorder s = Some Rec_recording then 1 else 0)"
proof (cases "recorders s = []")
  case True
  then show ?thesis by (simp add: sessions_recording_def recorder_def)
next
  case False
  then have split: "recorders s = butlast (recorders s) @ [last (recorders s)]" by simp
  from assms have "filter (\<lambda>r. r = Rec_recording) (butlast (recorders s)) = []"
    by (auto simp: session_inv_def list_all_iff filter_empty_conv)
  then have "filter (\<lambda>r. r = Rec_recording) (recorders s)
      = filter (\<lambda>r. r = Rec_recording) [last (recorders s)]"
    by (subst split) simp
  with False show ?thesis by (simp add: sessions_recording_def recorder_def)
qed

lemma session_inv_idle:
  "session_inv s \<Longrightarrow> state s \<noteq> Recording \<Longrightarrow> sessions_recording s = 0"
  by (simp add: session_inv_count) (simp add: session_inv_def)

lemma stopRecording_session_inv: "session_inv s \<Longrightarrow> session_inv (stopRecording s)"
  by (auto simp: session_inv_def stopRecording_def recorder_def MediaRecorder_stop_def
      split: option.splits if_splits)

lemma stopRecording_none_recording:
  assumes "session_inv s" and "state s = Recording"
  shows "sessions_recording (stopRecording s) = 0"
proof -
  have "recorder (stopRecording s) \<noteq> Some Rec_recording"
    using assms
    by (auto simp: session_inv_def stopRecording_def recorder_def MediaRecorder_stop_def
        split: option.splits if_splits)
  with stopRecording_session_inv [OF assms(1)] show ?thesis
    by (simp add: session_inv_count)
qed

lemma startRecording_session_inv:
  assumes "session_inv s" and "state s \<noteq> Recording"
  shows "session_inv (after (startRecording eng s))"
proof (cases "recordDest eng")
  case None
  then have "after (startRecording eng s) = s\<lparr>chunks := []\<rparr>"
    by (simp add: startRecording_def)
  with assms(1) show ?thesis by (simp add: session_inv_def recorder_def)
next
  case (Some d)
  from assms have "list_all (\<lambda>r. r = Rec_inactive) (recorders s)"
  proof (cases "recorders s = []")
    case True
    then show ?thesis by simp
  next
    case False
    then have split: "recorders s = butlast (recorders s) @ [last (recorders s)]" by simp
    from assms False have "last (recorders s) = Rec_inactive"
      by (cases "last (recorders s)") (auto simp: session_inv_def recorder_def)
    with assms(1) show ?thesis
      by (subst split) (simp add: session_inv_def)
  qed
  with Some show ?thesis
    by (simp add: startRecording_def session_inv_def recorder_def)
qed

lemma toggle_session_inv: "session_inv s \<Longrightarrow> session_inv (after (LoopSlot_toggle eng s))"
  by (cases "state s = Recording")
    (simp_all add: LoopSlot_toggle_def stopRecording_session_inv startRecording_session_inv)

lemma deliver_data_session_inv: "session_inv s \<Longrightarrow> session_inv (deliver_data k c s)"
  by (simp add: deliver_data_def ondataavailable_def session_inv_def recorder_def)

lemma deliver_data_count: "sessions_recording (deliver_data k c s) = sessions_recording s"
  by (simp add: deliver_data_def ondataavailable_def sessions_recording_def)

lemma onstop_recorders: "recorders (after (onstop eng s)) = recorders s"
  using play_recorders [of eng "s\<lparr>audioUrl := Some (concat (chunks s)), state := Playing\<rparr>"]
  by (simp add: onstop_def)

lemma deliver_stop_count: "sessions_recording (deliver_stop eng k s) \<le> sessions_recording s"
proof (cases "k < length (recorders s) \<and> recorders s ! k = Rec_stop_queued")
  case True
  have "length (filter (\<lambda>r. r = Rec_recording) ((recorders s)[k := Rec_inactive]))
      \<le> length (filter (\<lambda>r. r = Rec_recording) (recorders s))"
    by (rule filter_count_update) simp
  with True show ?thesis
    by (simp add: deliver_stop_def sessions_recording_def onstop_recorders)
next
  case False
  then show ?thesis by (auto simp: deliver_stop_def)
qed

lemma deliver_stop_session_inv:
  assumes "session_inv s"
  shows "session_inv (deliver_stop eng k s)"
proof (cases "k < length (recorders s) \<and> recorders s ! k = Rec_stop_queued")
  case False
  with assms show ?thesis by (auto simp: deliver_stop_def)
next
  case True
  then have ne: "recorders s \<noteq> []" by auto
  have "k = length (recorders s) - 1"
  proof (rule ccontr)
    assume "k \<noteq> length (recorders s) - 1"
    with True have "k < length (butlast (recorders s))" by auto
    with assms have "butlast (recorders s) ! k = Rec_inactive"
      by (simp add: session_inv_def list_all_length)
    with \<open>k < length (butlast (recorders s))\<close> True show False
      by (simp add: nth_butlast)
  qed
  then have upd: "(recorders s)[k := Rec_inactive] = butlast (recorders s) @ [Rec_inactive]"
    using ne by (metis append_butlast_last_id length_butlast list_update_length)
  let ?s = "s\<lparr>recorders := (recorders s)[k := Rec_inactive]\<rparr>"
  have "recorders (after (onstop eng ?s)) = butlast (recorders s) @ [Rec_inactive]"
    using upd by (simp add: onstop_recorders)
  moreover have "state (after (onstop eng ?s)) = Playing" by (rule onstop_state)
  ultimately have "session_inv (after (onstop eng ?s))"
    using assms by (simp add: session_inv_def recorder_def)
  with True show ?thesis by (simp add: deliver_stop_def)
qed

lemma stop_others_session_inv:
  assumes "list_all session_inv sl"
  shows "list_all session_inv (stop_others idx sl)"
  using assms by (auto simp: list_all_length stop_others_nth stopRecording_session_inv)

lemma stop_others_none_recording:
  assumes "list_all session_inv sl" and "i < length sl" and "i \<noteq> idx"
  shows "sessions_recording (stop_others idx sl ! i) = 0"
proof (cases "state (sl ! i) = Recording")
  case True
  with assms show ?thesis
    by (simp add: stop_others_nth list_all_length stopRecording_none_recording)
next
  case False
  with assms show ?thesis
    by (simp add: stop_others_nth list_all_length session_inv_idle)
qed

lemma toggleRecord_session_inv:
  assumes "list_all session_inv (slots st)"
  shows "list_all session_inv (slots (after (toggleRecord eng idx st)))"
proof -
  have a: "list_all session_inv (stop_others idx (slots st))"
    using assms by (rule stop_others_session_inv)
  show ?thesis
  proof (cases "idx < length (slots st)")
    case True
    with a have "session_inv (stop_others idx (slots st) ! idx)"
      by (simp add: list_all_length)
    then have "session_inv (after (LoopSlot_toggle eng (stop_others idx (slots st) ! idx)))"
      by (rule toggle_session_inv)
    with a True show ?thesis
      by (auto simp: toggleRecord_slots list_all_length nth_list_update)
  next
    case False
    with a show ?thesis by (simp add: toggleRecord_slots)
  qed
qed

lemma toggleRecord_recording_recorders:
  assumes "list_all session_inv (slots st)"
  shows "recording_recorders (after (toggleRecord eng idx st)) \<le> 1"
proof -
  let ?sl = "slots (after (toggleRecord eng idx st))"
  have inv: "list_all session_inv ?sl"
    using assms by (rule toggleRecord_session_inv)
  have others: "\<forall>i<length ?sl. i \<noteq> idx \<longrightarrow> sessions_recording (?sl ! i) = 0"
    using assms by (simp add: toggleRecord_slots stop_others_none_recording)
  have this_one: "idx < length ?sl \<longrightarrow> sessions_recording (?sl ! idx) \<le> 1"
  proof
    assume "idx < length ?sl"
    with inv have "session_inv (?sl ! idx)" by (simp add: list_all_length)
    then show "sessions_recording (?sl ! idx) \<le> 1" by (simp add: session_inv_count)
  qed
  from others this_one show ?thesis
    unfolding recording_recorders_def by (rule sum_list_one)
qed

lemma dispatch_session_inv:
  assumes "list_all session_inv (slots st)" and "record_event e"
  shows "list_all session_inv (slots (dispatch eng st e))"
proof (cases e)
  case (ToggleRecord idx)
  with assms show ?thesis by (simp add: toggleRecord_session_inv)
next
  case StopAll
  with assms(2) show ?thesis by (simp add: record_event_def)
next
  case PlayAll
  with assms(2) show ?thesis by (simp add: record_event_def)
next
  case (DataAvailable i k c)
  with assms(1) show ?thesis
    by (auto simp: list_all_length nth_list_update deliver_data_session_inv)
next
  case (RecorderStopped i k)
  with assms(1) show ?thesis
    by (auto simp: list_all_length nth_list_update deliver_stop_session_inv)
qed

lemma dispatch_recording_recorders:
  assumes "list_all session_inv (slots st)" and "recording_recorders st \<le> 1"
    and "record_event e"
  shows "recording_recorders (dispatch eng st e) \<le> 1"
proof (cases e)
  case (ToggleRecord idx)
  then show ?thesis using toggleRecord_recording_recorders [OF assms(1), of eng idx] by simp
next
  case StopAll
  with assms(3) show ?thesis by (simp add: record_event_def)
next
  case PlayAll
  with assms(3) show ?thesis by (simp add: record_event_def)
next
  case (DataAvailable i k c)
  have "sum_list (map sessions_recording ((slots st)[i := deliver_data k c (slots st ! i)]))
      \<le> sum_list (map sessions_recording (slots st))"
    by (rule sum_list_update_le) (simp add: deliver_data_count)
  with DataAvailable assms(2) show ?thesis by (simp add: recording_recorders_def)
next
  case (RecorderStopped i k)
  have "sum_list (map sessions_recording ((slots st)[i := deliver_stop eng k (slots st ! i)]))
      \<le> sum_list (map sessions_recording (slots st))"
    by (rule sum_list_update_le) (rule deliver_stop_count)
  with RecorderStopped assms(2) show ?thesis by (simp add: recording_recorders_def)
qed

lemma run_record_events:
  assumes "list_all session_inv (slots st)" and "recording_recorders st \<le> 1"
  shows "list_all record_event evs \<Longrightarrow>
    list_all session_inv (slots (run eng st evs)) \<and> recording_recorders (run eng st evs) \<le> 1"
proof (induction evs rule: rev_induct)
  case Nil
  with assms show ?case by (simp add: run_def)
next
  case (snoc e evs)
  then have ih: "list_all session_inv (slots (run eng st evs))"
    "recording_recorders (run eng st evs) \<le> 1" and e: "record_event e"
    by simp_all
  show ?case
    unfolding run_snoc
    using dispatch_session_inv [OF ih(1) e] dispatch_recording_recorders [OF ih e] by simp
qed

lemma new_LoopStation_session_inv:
  "list_all session_inv (slots new_LoopStation) \<and> recording_recorders new_LoopStation = 0"
  by (simp add: new_LoopStation_def session_inv_def new_LoopSlot_def recorder_def
      recording_recorders_def sessions_recording_def)

section \<open>Claims about the loop station\<close>

text \<open>
  C7. After \<open>stopAll\<close> no slot of the station is in the Playing or the Recording state
  (and every audio element is paused at position 0), and every slot that was Empty before
  the call is Empty after it.
\<close>

theorem stopAll_leaves_none_active:
  "(\<forall>s \<in> set (slots (stopAll st)).
      state s \<noteq> Playing \<and> state s \<noteq> Recording \<and>
      paused (audioEl s) \<and> currentTime (audioEl s) = 0) \<and>
   length (slots (stopAll st)) = length (slots st) \<and>
   (\<forall>i < length (slots st).
      state (slots st ! i) = Empty \<longrightarrow> state (slots (stopAll st) ! i) = Empty)"
proof -
  have "paused (audioEl (stop s)) \<and> currentTime (audioEl (stop s)) = 0" for s
    by (simp add: stop_def Let_def)
  then show ?thesis by (auto simp: stopAll_def stop_state)
qed

text \<open>
  The demo station has a Playing, a Recording and an Empty slot; \<open>stopAll\<close> leaves
  them Stopped, Stopped and Empty.
\<close>

theorem stopAll_leaves_none_active_witness:
  "map state (slots demo_station) = [Playing, Recording, Empty] \<and>
   map state (slots (stopAll demo_station)) = [Stopped, Stopped, Empty] \<and>
   length (slots (stopAll demo_station)) = length (slots demo_station)"
  using stopAll_leaves_none_active [of demo_station]
  by (simp add: demo_station_eq stopAll_def stop_def)

text \<open>
  C10. On a slot with no recorded asset \<open>play\<close> returns the slot as it was, every field
  included, so no playback begins; \<open>playAll\<close> therefore leaves every slot without an asset
  untouched, and in every station reached from the constructor an Empty slot has no asset
  and is left Empty, and unchanged, by \<open>playAll\<close>.
\<close>

theorem play_without_asset_is_noop:
  "(audioUrl s = None \<longrightarrow> play eng s = Inr s) \<and>
   (\<forall>i < length (slots st).
      audioUrl (slots st ! i) = None \<longrightarrow>
        slots (after (playAll eng st)) ! i = slots st ! i) \<and>
   (\<forall>i < length (slots (run eng new_LoopStation evs)).
      state (slots (run eng new_LoopStation evs) ! i) = Empty \<longrightarrow>
        audioUrl (slots (run eng new_LoopStation evs) ! i) = None \<and>
        slots (after (playAll eng (run eng new_LoopStation evs))) ! i
          = slots (run eng new_LoopStation evs) ! i)"
proof -
  have noop: "slots (after (playAll eng st')) ! i = slots st' ! i"
    if "i < length (slots st')" and "audioUrl (slots st' ! i) = None" for st' i
    using forEach_play_nth [OF that(1), of eng] that(2)
    by (auto simp: playAll_slots play_no_asset)
  have "audioUrl (slots (run eng new_LoopStation evs) ! i) = None"
    if "i < length (slots (run eng new_LoopStation evs))"
      and "state (slots (run eng new_LoopStation evs) ! i) = Empty" for i
    using run_empty_ok [OF new_LoopStation_empty_ok, of eng evs] that
    by (simp add: list_all_length empty_ok_def)
  with noop show ?thesis by (simp add: play_no_asset)
qed

text \<open>Slot 2 of the demo station is Empty, has no asset, and is left as it is.\<close>

theorem play_without_asset_is_noop_witness:
  "audioUrl (slots demo_station ! 2) = None \<and>
   play engine_with_mic (slots demo_station ! 2) = Inr (slots demo_station ! 2) \<and>
   2 < length (slots (run engine_with_mic new_LoopStation demo_events)) \<and>
   state (slots (run engine_with_mic new_LoopStation demo_events) ! 2) = Empty \<and>
   slots (after (playAll engine_with_mic (run engine_with_mic new_LoopStation demo_events))) ! 2
     = slots (run engine_with_mic new_LoopStation demo_events) ! 2"
  using play_without_asset_is_noop
    [of "slots demo_station ! 2" engine_with_mic demo_station demo_events]
  by (simp add: demo_station_eq demo_station_def [symmetric])

text \<open>
  C8, as stated: \<open>playAll\<close> moves every Stopped slot to Playing. It fails on the
  station where stop-all caught slot 0 in its first recording: the slot is Stopped, has no
  asset, and \<open>playAll\<close> leaves it Stopped.
\<close>

theorem playAll_stopped_without_asset_counterexample:
  "state (slots interrupted_station ! 0) = Stopped \<and>
   state (slots (after (playAll engine_with_mic interrupted_station)) ! 0) \<noteq> Playing"
  by (simp add: interrupted_station_eq playAll_def play_def)

text \<open>
  C8, amended. With the audio context in place \<open>playAll\<close> returns normally and keeps
  the number of slots; every Stopped slot that has a recorded asset moves to Playing, its
  audio element playing that asset from position 0; a Playing slot with an asset stays
  Playing, restarted from position 0; and a slot without an asset, whatever its state
  (Empty, Recording, Stopped), is left exactly as it was.
\<close>

theorem playAll_resumes_slots_with_asset:
  assumes "ctx eng = Some c"
  shows "\<exists>st'. playAll eng st = Inr st' \<and> length (slots st') = length (slots st) \<and>
    (\<forall>i < length (slots st).
       (audioUrl (slots st ! i) = None \<longrightarrow> slots st' ! i = slots st ! i) \<and>
       (\<forall>u. audioUrl (slots st ! i) = Some u \<and>
              (state (slots st ! i) = Stopped \<or> state (slots st ! i) = Playing) \<longrightarrow>
            state (slots st' ! i) = Playing \<and>
            audioUrl (slots st' ! i) = Some u \<and>
            src (audioEl (slots st' ! i)) = Some u \<and>
            currentTime (audioEl (slots st' ! i)) = 0 \<and>
            \<not> paused (audioEl (slots st' ! i))))"
proof -
  let ?st' = "st\<lparr>slots := map (\<lambda>s. after (play eng s)) (slots st)\<rparr>"
  have "playAll eng st = Inr ?st'"
    by (simp add: playAll_def forEach_play_no_throw [OF assms])
  moreover have "slots ?st' ! i = slots st ! i"
    if "i < length (slots st)" and "audioUrl (slots st ! i) = None" for i
    using that by (simp add: play_no_asset)
  moreover have "state (slots ?st' ! i) = Playing \<and> audioUrl (slots ?st' ! i) = Some u \<and>
      src (audioEl (slots ?st' ! i)) = Some u \<and> currentTime (audioEl (slots ?st' ! i)) = 0 \<and>
      \<not> paused (audioEl (slots ?st' ! i))"
    if "i < length (slots st)" and "audioUrl (slots st ! i) = Some u" for i u
    using that by (simp add: play_with_asset [OF that(2) assms])
  ultimately show ?thesis by auto
qed

text \<open>
  In the demo station slot 0 holds an asset; stopped by \<open>stopAll\<close>, it is Playing again
  after \<open>playAll\<close>, while the Empty slot 2 is unchanged.
\<close>

theorem playAll_resumes_slots_with_asset_witness:
  "ctx engine_with_mic = Some () \<and>
   map state (slots (stopAll demo_station)) = [Stopped, Stopped, Empty] \<and>
   map audioUrl (slots (stopAll demo_station)) = [Some [1, 2, 3], None, None] \<and>
   (\<exists>st'. playAll engine_with_mic (stopAll demo_station) = Inr st' \<and>
      map state (slots st') = [Playing, Stopped, Empty] \<and>
      src (audioEl (slots st' ! 0)) = Some [1, 2, 3] \<and>
      slots st' ! 2 = slots (stopAll demo_station) ! 2)"
proof -
  have c: "ctx engine_with_mic = Some ()" by (simp add: engine_with_mic_eq)
  from playAll_resumes_slots_with_asset [OF c, of "stopAll demo_station"]
  obtain st' where st': "playAll engine_with_mic (stopAll demo_station) = Inr st'"
    "length (slots st') = 3"
    "\<forall>i < 3.
       (audioUrl (slots (stopAll demo_station) ! i) = None \<longrightarrow>
          slots st' ! i = slots (stopAll demo_station) ! i) \<and>
       (\<forall>u. audioUrl (slots (stopAll demo_station) ! i) = Some u \<and>
              (state (slots (stopAll demo_station) ! i) = Stopped \<or>
               state (slots (stopAll demo_station) ! i) = Playing) \<longrightarrow>
            state (slots st' ! i) = Playing \<and>
            audioUrl (slots st' ! i) = Some u \<and>
            src (audioEl (slots st' ! i)) = Some u \<and>
            currentTime (audioEl (slots st' ! i)) = 0 \<and>
            \<not> paused (audioEl (slots st' ! i)))"
    by (auto simp: demo_station_eq stopAll_def)
  from st'(3) have 0: "state (slots st' ! 0) = Playing" "src (audioEl (slots st' ! 0)) = Some [1, 2, 3]"
    by (simp_all add: demo_station_eq stopAll_def stop_def)
  from st'(3) have 1: "slots st' ! 1 = slots (stopAll demo_station) ! 1"
    by (simp add: demo_station_eq stopAll_def stop_def)
  from st'(3) have 2: "slots st' ! 2 = slots (stopAll demo_station) ! 2"
    by (simp add: demo_station_eq stopAll_def stop_def)
  from st'(2) obtain a b d where abd: "slots st' = [a, b, d]"
    by (auto simp: length_Suc_conv numeral_3_eq_3)
  from abd 0 1 2 have "map state (slots st') = [Playing, Stopped, Empty]"
    by (simp add: demo_station_eq stopAll_def stop_def)
  with st'(1) 0 2 c show ?thesis
    by (simp add: demo_station_eq stopAll_def stop_def)
qed

text \<open>
  C2, as stated: the slot's toggle moves a Playing slot to Stopped and never into
  Recording. Slot 0 of the demo station is Playing, and its toggle puts it into the
  Recording state.
\<close>

theorem toggle_playing_counterexample:
  "state (slots demo_station ! 0) = Playing \<and>
   state (after (LoopSlot_toggle engine_with_mic (slots demo_station ! 0))) = Recording"
  by (simp add: demo_station_eq engine_with_mic_eq LoopSlot_toggle_def startRecording_def)

text \<open>
  C2, amended. The slot's \<open>stop\<close> moves a Playing slot to Stopped, pausing playback and
  resetting the position to the start; the slot's \<open>play\<close> moves a Stopped slot that has an
  asset back to Playing, from the start; and the slot's \<open>toggle\<close> is the record toggle:
  on a Playing or a Stopped slot it starts a new capture session and the slot enters the
  Recording state.
\<close>

theorem stop_play_and_toggle_transitions:
  "(state s = Playing \<longrightarrow>
      state (stop s) = Stopped \<and> paused (audioEl (stop s)) \<and>
      currentTime (audioEl (stop s)) = 0) \<and>
   (state s = Stopped \<and> audioUrl s = Some u \<and> ctx eng = Some c \<longrightarrow>
      (\<exists>s'. play eng s = Inr s' \<and> state s' = Playing \<and> \<not> paused (audioEl s') \<and>
         currentTime (audioEl s') = 0 \<and> src (audioEl s') = Some u)) \<and>
   ((state s = Playing \<or> state s = Stopped) \<and> recordDest eng = Some d \<longrightarrow>
      (\<exists>s'. LoopSlot_toggle eng s = Inr s' \<and> state s' = Recording \<and>
         recorder s' = Some Rec_recording))"
proof (intro conjI impI)
  assume "state s = Playing"
  then show "state (stop s) = Stopped" "paused (audioEl (stop s))"
    "currentTime (audioEl (stop s)) = 0"
    by (simp_all add: stop_def)
next
  assume "state s = Stopped \<and> audioUrl s = Some u \<and> ctx eng = Some c"
  then show "\<exists>s'. play eng s = Inr s' \<and> state s' = Playing \<and> \<not> paused (audioEl s') \<and>
         currentTime (audioEl s') = 0 \<and> src (audioEl s') = Some u"
    by (simp add: play_with_asset)
next
  assume "(state s = Playing \<or> state s = Stopped) \<and> recordDest eng = Some d"
  then show "\<exists>s'. LoopSlot_toggle eng s = Inr s' \<and> state s' = Recording \<and>
         recorder s' = Some Rec_recording"
    by (auto simp: LoopSlot_toggle_def startRecording_def recorder_def)
qed

text \<open>
  Slot 0 of the demo station is Playing: \<open>stop\<close> makes it Stopped, \<open>play\<close> makes the
  stopped slot Playing again, and \<open>toggle\<close> on the stopped slot starts a recording.
\<close>

theorem stop_play_and_toggle_transitions_witness:
  "state (slots demo_station ! 0) = Playing \<and>
   state (stop (slots demo_station ! 0)) = Stopped \<and>
   paused (audioEl (stop (slots demo_station ! 0))) \<and>
   audioUrl (stop (slots demo_station ! 0)) = Some [1, 2, 3] \<and>
   ctx engine_with_mic = Some () \<and>
   recordDest engine_with_mic = Some [SynthBus, MicNode] \<and>
   (\<exists>s'. play engine_with_mic (stop (slots demo_station ! 0)) = Inr s' \<and>
      state s' = Playing \<and> \<not> paused (audioEl s') \<and> currentTime (audioEl s') = 0 \<and>
      src (audioEl s') = Some [1, 2, 3]) \<and>
   (\<exists>s'. LoopSlot_toggle engine_with_mic (stop (slots demo_station ! 0)) = Inr s' \<and>
      state s' = Recording \<and> recorder s' = Some Rec_recording)"
  using stop_play_and_toggle_transitions
    [of "slots demo_station ! 0" "[1, 2, 3]" engine_with_mic "()" "[SynthBus, MicNode]"]
    stop_play_and_toggle_transitions
    [of "stop (slots demo_station ! 0)" "[1, 2, 3]" engine_with_mic "()" "[SynthBus, MicNode]"]
  by (simp add: demo_station_eq engine_with_mic_eq stop_def)

text \<open>
  C5. Take any slot and an engine with its record destination and audio context in
  place. \<open>startRecording\<close> opens a session with no chunks; let the chunks \<open>cs\<close> arrive, then
  call \<open>stopRecording\<close>: the slot is still Recording and its recorder has the stop task
  queued; let the chunks \<open>ds\<close> of the final flush arrive, then the \<open>stop\<close> event. The slot
  is then Playing, its asset is the concatenation of \<open>cs\<close> and \<open>ds\<close> in arrival order and
  nothing else, and its audio element plays that asset from position 0, looping as the
  slot's element did before.
\<close>

theorem recording_session_asset:
  assumes "recordDest eng = Some d" and "ctx eng = Some c"
  shows "\<exists>s1 s5.
    startRecording eng s = Inr s1 \<and> state s1 = Recording \<and> chunks s1 = [] \<and>
    state (stopRecording (foldl ondataavailable s1 cs)) = Recording \<and>
    recorder (stopRecording (foldl ondataavailable s1 cs)) = Some Rec_stop_queued \<and>
    onstop eng (foldl ondataavailable (stopRecording (foldl ondataavailable s1 cs)) ds)
      = Inr s5 \<and>
    state s5 = Playing \<and> audioUrl s5 = Some (concat (cs @ ds)) \<and>
    src (audioEl s5) = Some (concat (cs @ ds)) \<and> currentTime (audioEl s5) = 0 \<and>
    \<not> paused (audioEl s5) \<and> loop (audioEl s5) = loop (audioEl s)"
proof -
  define s1 where "s1 = s\<lparr>chunks := [], recorders := recorders s @ [Rec_recording],
    state := Recording\<rparr>"
  define s3 where "s3 = stopRecording (foldl ondataavailable s1 cs)"
  define s4 where "s4 = foldl ondataavailable s3 ds"
  have start: "startRecording eng s = Inr s1"
    using assms(1) by (simp add: startRecording_def s1_def)
  have s1: "state s1 = Recording" "chunks s1 = []" "recorder s1 = Some Rec_recording"
    "audioEl s1 = audioEl s"
    by (simp_all add: s1_def recorder_def)
  have s3: "state s3 = Recording" "recorder s3 = Some Rec_stop_queued" "chunks s3 = cs"
    "audioEl s3 = audioEl s"
    using s1
    by (auto simp: s3_def stopRecording_def recorder_def MediaRecorder_stop_def
        split: if_splits)
  have s4: "chunks s4 = cs @ ds" "audioEl s4 = audioEl s"
    using s3 by (simp_all add: s4_def)
  let ?b = "concat (cs @ ds)"
  let ?s5 = "after (onstop eng s4)"
  have stop: "onstop eng s4 = Inr ?s5 \<and> state ?s5 = Playing \<and> audioUrl ?s5 = Some ?b \<and>
    src (audioEl ?s5) = Some ?b \<and> currentTime (audioEl ?s5) = 0 \<and> \<not> paused (audioEl ?s5) \<and>
    loop (audioEl ?s5) = loop (audioEl s)"
    using s4 assms(2) by (simp add: onstop_def play_with_asset [where u = ?b and c = c])
  with start s1 s3 show ?thesis unfolding s3_def s4_def by blast
qed

text \<open>
  A fresh slot receives the three chunks 1, 2 and 3 and is stopped: its asset is their
  concatenation.
\<close>

theorem recording_session_asset_witness:
  "recordDest engine_with_mic = Some [SynthBus, MicNode] \<and> ctx engine_with_mic = Some () \<and>
   (\<exists>s1 s5.
      startRecording engine_with_mic (new_LoopSlot 0) = Inr s1 \<and>
      onstop engine_with_mic
        (stopRecording (ondataavailable (ondataavailable (ondataavailable s1 [1]) [2]) [3]))
        = Inr s5 \<and>
      state s5 = Playing \<and> audioUrl s5 = Some [1, 2, 3] \<and>
      src (audioEl s5) = Some [1, 2, 3] \<and> \<not> paused (audioEl s5) \<and> loop (audioEl s5))"
proof -
  have d: "recordDest engine_with_mic = Some [SynthBus, MicNode]"
    and c: "ctx engine_with_mic = Some ()"
    by (simp_all add: engine_with_mic_eq)
  from recording_session_asset [OF d c, of "new_LoopSlot 0" "[[1], [2], [3]]" "[]"]
  show ?thesis using d c by (auto simp: new_LoopSlot_def)
qed

text \<open>
  C9, as stated: without input permission \<open>startRecording\<close> on an Empty slot fails and
  the slot stays Empty. With the permission denied the engine has no microphone node, yet
  \<open>startRecording\<close> on a fresh slot returns normally and the slot is Recording.
\<close>

theorem startRecording_mic_denied_counterexample:
  "micNode engine_mic_denied = None \<and>
   state (new_LoopSlot 0) = Empty \<and>
   \<not> threw (startRecording engine_mic_denied (new_LoopSlot 0)) \<and>
   state (after (startRecording engine_mic_denied (new_LoopSlot 0))) = Recording"
  by (simp add: engine_mic_denied_eq new_LoopSlot_def startRecording_def threw_def)

text \<open>
  C9, amended. The record destination exists as soon as the engine is initialised, fed by
  the synth bus. When the input permission is denied, \<open>setupMic\<close> raises the microphone
  alert, connects no microphone and leaves the record destination as it was;
  \<open>startRecording\<close> on a slot then succeeds and the slot enters the Recording state with a
  running capture session. \<open>startRecording\<close> fails only on an engine that has no record
  destination: it throws, and the slot keeps its state, its asset and its recorders; a
  record toggle on such an engine leaves the state of every slot of the station as it was.
\<close>

theorem startRecording_needs_only_record_destination:
  "(\<not> initialized e0 \<longrightarrow>
      recordDest (init e0) = Some [SynthBus] \<and>
      alerts (setupMic False (init e0))
        = alerts e0 @ [''Microphone Access Required for Recording!''] \<and>
      micNode (setupMic False (init e0)) = micNode e0 \<and>
      recordDest (setupMic False (init e0)) = Some [SynthBus] \<and>
      (\<exists>s'. startRecording (setupMic False (init e0)) s = Inr s' \<and> state s' = Recording \<and>
         recorder s' = Some Rec_recording)) \<and>
   (recordDest eng = None \<longrightarrow>
      (\<exists>s'. startRecording eng s = Inl (TypeError, s') \<and> state s' = state s \<and>
         audioUrl s' = audioUrl s \<and> recorders s' = recorders s) \<and>
      map state (slots (after (toggleRecord eng idx st))) = map state (slots st))"
proof -
  have "map state (slots (after (toggleRecord eng idx st))) = map state (slots st)"
    if none: "recordDest eng = None"
  proof (rule nth_equalityI)
    show "length (map state (slots (after (toggleRecord eng idx st))))
        = length (map state (slots st))"
      by simp
  next
    fix i
    assume "i < length (map state (slots (after (toggleRecord eng idx st))))"
    then have i: "i < length (slots st)" by simp
    have keep: "state (after (LoopSlot_toggle eng x)) = state x" for x
      using none by (simp add: LoopSlot_toggle_def startRecording_def)
    have others: "state (stop_others idx (slots st) ! i) = state (slots st ! i)"
      using i by (simp add: stop_others_nth)
    show "map state (slots (after (toggleRecord eng idx st))) ! i = map state (slots st) ! i"
    proof (cases "i = idx")
      case True
      with i others show ?thesis by (simp add: toggleRecord_slots keep)
    next
      case False
      with i others show ?thesis by (simp add: toggleRecord_slots)
    qed
  qed
  then show ?thesis
    by (auto simp: init_def setupMic_def mic_alert_def startRecording_def recorder_def)
qed

text \<open>
  The engine initialised with the permission denied, and the engine that was never
  initialised, on a fresh slot and on the fresh station.
\<close>

theorem startRecording_needs_only_record_destination_witness:
  "\<not> initialized new_AudioEngine \<and>
   recordDest new_AudioEngine = None \<and>
   alerts (setupMic False (init new_AudioEngine))
     = [''Microphone Access Required for Recording!''] \<and>
   (\<exists>s'. startRecording (setupMic False (init new_AudioEngine)) (new_LoopSlot 0) = Inr s' \<and>
      state s' = Recording) \<and>
   (\<exists>s'. startRecording new_AudioEngine (new_LoopSlot 0) = Inl (TypeError, s') \<and>
      state s' = Empty) \<and>
   map state (slots (after (toggleRecord new_AudioEngine 0 new_LoopStation)))
     = [Empty, Empty, Empty]"
  using startRecording_needs_only_record_destination
    [of new_AudioEngine "new_LoopSlot 0" new_AudioEngine 0 new_LoopStation]
  by (auto simp: new_AudioEngine_def new_LoopSlot_def new_LoopStation_def)

text \<open>
  C1, as stated: at most one slot is in the Recording state at every instant, also right
  after \<open>toggleRecord\<close> returns. After \<open>toggleRecord(0)\<close> and \<open>toggleRecord(1)\<close>, with
  no callback run yet, slots 0 and 1 are both in the Recording state.
\<close>

theorem two_slots_recording_counterexample:
  "recording_count (run engine_with_mic new_LoopStation [ToggleRecord 0, ToggleRecord 1]) = 2"
  by (simp add: recording_count_def engine_with_mic_eq slot_defs station_defs)

text \<open>
  C1, amended. In every station reached from the constructor by record toggles and
  recorder callbacks in any order: at most one recorder of the whole station is
  recording; in every slot all capture sessions before the current one have finished,
  and the slot is in the Recording state exactly when the recorder of its current session
  is recording or has its stop task queued; and whenever no slot has the stop task of its
  current recorder queued, at most one slot is in the Recording state.
\<close>

theorem at_most_one_session_recording:
  assumes "list_all record_event evs"
  shows "recording_recorders (run eng new_LoopStation evs) \<le> 1 \<and>
   list_all session_inv (slots (run eng new_LoopStation evs)) \<and>
   (list_all (\<lambda>s. recorder s \<noteq> Some Rec_stop_queued) (slots (run eng new_LoopStation evs))
      \<longrightarrow> recording_count (run eng new_LoopStation evs) \<le> 1)"
proof -
  let ?st = "run eng new_LoopStation evs"
  from run_record_events [OF _ _ assms, of new_LoopStation eng]
  have inv: "list_all session_inv (slots ?st)" and one: "recording_recorders ?st \<le> 1"
    by (simp_all add: new_LoopStation_session_inv)
  have "recording_count ?st \<le> 1"
    if "list_all (\<lambda>s. recorder s \<noteq> Some Rec_stop_queued) (slots ?st)"
  proof -
    have "\<forall>s \<in> set (slots ?st).
        sessions_recording s = (if state s = Recording then 1 else 0)"
      using inv that by (auto simp: list_all_iff session_inv_count) (auto simp: session_inv_def)
    then have "recording_recorders ?st = recording_count ?st"
      unfolding recording_recorders_def recording_count_def by (rule sum_list_indicator)
    with one show ?thesis by simp
  qed
  with inv one show ?thesis by blast
qed

text \<open>
  After \<open>toggleRecord(0)\<close> and \<open>toggleRecord(1)\<close> two slots are in the Recording state,
  one recorder is recording and the recorder of slot 0 has its stop task queued; once the
  \<open>stop\<close> event of slot 0 has run, slot 0 is Playing and one slot is in the Recording
  state.
\<close>

theorem at_most_one_session_recording_witness:
  "list_all record_event [ToggleRecord 0, ToggleRecord 1, RecorderStopped 0 0] \<and>
   recording_count (run engine_with_mic new_LoopStation [ToggleRecord 0, ToggleRecord 1]) = 2 \<and>
   recording_recorders (run engine_with_mic new_LoopStation [ToggleRecord 0, ToggleRecord 1]) = 1 \<and>
   map recorders (slots (run engine_with_mic new_LoopStation [ToggleRecord 0, ToggleRecord 1]))
     = [[Rec_stop_queued], [Rec_recording], []] \<and>
   list_all (\<lambda>s. recorder s \<noteq> Some Rec_stop_queued)
     (slots (run engine_with_mic new_LoopStation
        [ToggleRecord 0, ToggleRecord 1, RecorderStopped 0 0])) \<and>
   map state (slots (run engine_with_mic new_LoopStation
        [ToggleRecord 0, ToggleRecord 1, RecorderStopped 0 0])) = [Playing, Recording, Empty] \<and>
   recording_count (run engine_with_mic new_LoopStation
        [ToggleRecord 0, ToggleRecord 1, RecorderStopped 0 0]) = 1"
proof -
  have a: "list_all record_event [ToggleRecord 0, ToggleRecord 1]"
    and b: "list_all record_event [ToggleRecord 0, ToggleRecord 1, RecorderStopped 0 0]"
    by (simp_all add: record_event_def)
  show ?thesis
    using at_most_one_session_recording [OF a, of engine_with_mic]
      at_most_one_session_recording [OF b, of engine_with_mic] b
    by (simp add: recording_count_def recording_recorders_def sessions_recording_def
        engine_with_mic_eq slot_defs station_defs)
qed

text \<open>
  Stop-all is left out of the events above because it leaves the recorder of a recording
  slot running: after it, a record toggle starts a second recorder beside the first.
\<close>

lemma stopAll_leaves_recorder_running:
  "recording_recorders (run engine_with_mic new_LoopStation
     [ToggleRecord 0, StopAll, ToggleRecord 0, ToggleRecord 1]) = 2 \<and>
   map recorders (slots (run engine_with_mic new_LoopStation
     [ToggleRecord 0, StopAll, ToggleRecord 0, ToggleRecord 1]))
     = [[Rec_recording, Rec_stop_queued], [Rec_recording], []]"
  by (simp add: recording_recorders_def sessions_recording_def engine_with_mic_eq
      slot_defs station_defs)

section \<open>The scheduling loop in exact arithmetic\<close>

lemma nextNote_fields [simp]:
  "bpm (nextNote m) = bpm m"
  "scheduleAheadTime (nextNote m) = scheduleAheadTime m"
  "nextNoteTime (nextNote m) = nextNoteTime m + 60 / bpm m"
  "isPlaying (nextNote m) = isPlaying m"
  "timerID (nextNote m) = timerID m"
  "lookahead (nextNote m) = lookahead m"
  by (simp_all add: nextNote_def)

lemma beats_0 [simp]: "beats m 0 = []"
  by (simp add: beats_def)





section \<open>Start, then stop ten milliseconds later\<close>







section \<open>Rounding to the nearest double\<close>

lemma powr_powi: "(2 :: real) powr (of_int k) = 2 powi k"
  "(2 :: real) powr (of_int k + 1) = 2 powi (k + 1)"
  using powr_real_of_int' [of 2 k] powr_real_of_int' [of 2 "k + 1"] by simp_all

lemma powi_split: "(2 :: real) powi k = 2 ^ 52 * 2 powi (k - 52)"
proof -
  have "(2 :: real) powi (52 + (k - 52)) = 2 powi 52 * 2 powi (k - 52)"
    by (rule power_int_add) simp
  moreover have "52 + (k - 52) = k" by simp
  ultimately have "(2 :: real) powi k = 2 powi 52 * 2 powi (k - 52)" by (simp only:)
  then show ?thesis by simp
qed

lemma expo_bounds:
  assumes "0 < x"
  shows "2 powi (expo x) \<le> x" and "x < 2 powi (expo x + 1)"
proof -
  have "\<lfloor>log 2 x\<rfloor> = expo x" using assms by (simp add: expo_def)
  then have "2 powr (of_int (expo x)) \<le> x \<and> x < 2 powr (of_int (expo x + 1))"
    using assms floor_log_eq_powr_iff [of x 2 "expo x"] by simp
  then show "2 powi (expo x) \<le> x" and "x < 2 powi (expo x + 1)"
    by (simp_all add: powr_powi)
qed

lemma expo_eq:
  assumes "2 powi k \<le> x" and "x < 2 powi (k + 1)"
  shows "expo x = k"
proof -
  have "0 < (2 :: real) powi k" by simp
  with assms(1) have pos: "0 < x" by linarith
  have "2 powr (of_int k) \<le> x \<and> x < 2 powr (of_int (k + 1))"
    using assms by (simp add: powr_powi)
  then have "\<lfloor>log 2 x\<rfloor> = k"
    using pos floor_log_eq_powr_iff [of x 2 k] by simp
  with pos show ?thesis by (simp add: expo_def)
qed

lemma rte_of_int [simp]: "rte (of_int n) = n"
  by (simp add: rte_def)

lemma rte_floor: "\<lfloor>y\<rfloor> \<le> rte y" "rte y \<le> \<lfloor>y\<rfloor> + 1"
  by (simp_all add: rte_def Let_def)

lemma rte_error: "\<bar>of_int (rte y) - y\<bar> \<le> 1 / 2"
proof -
  have "of_int \<lfloor>y\<rfloor> \<le> y" "y < of_int \<lfloor>y\<rfloor> + 1" by linarith+
  then show ?thesis by (auto simp: rte_def Let_def)
qed

lemma rte_mono:
  assumes "x \<le> y"
  shows "rte x \<le> rte y"
proof (cases "\<lfloor>x\<rfloor> = \<lfloor>y\<rfloor>")
  case False
  with assms have "\<lfloor>x\<rfloor> < \<lfloor>y\<rfloor>" by (simp add: floor_mono order.strict_iff_order)
  then have "\<lfloor>x\<rfloor> + 1 \<le> \<lfloor>y\<rfloor>" by simp
  with rte_floor(2) [of x] rte_floor(1) [of y] show ?thesis by linarith
next
  case True
  with assms have "x - of_int \<lfloor>x\<rfloor> \<le> y - of_int \<lfloor>x\<rfloor>" by simp
  with True show ?thesis by (auto simp: rte_def Let_def)
qed

lemma rte_ge: "of_int n \<le> y \<Longrightarrow> n \<le> rte y"
  using rte_mono [of "of_int n" y] by simp

lemma rte_le: "y \<le> of_int n \<Longrightarrow> rte y \<le> n"
  using rte_mono [of y "of_int n"] by simp

lemma ulp_pos [simp]: "0 < ulp x"
  by (simp add: ulp_def)

lemma ulp_neq0 [simp]: "ulp x \<noteq> 0"
  by (simp add: ulp_def)

lemma ulp_nonneg [simp]: "0 \<le> ulp x" "\<bar>ulp x\<bar> = ulp x"
  by (simp_all add: ulp_def)

lemma fl64_pos_eq: "0 < x \<Longrightarrow> fl64 x = of_int (rte (x / ulp x)) * ulp x"
  by (simp add: fl64_def ulp_def Let_def)

lemma powi_ulp:
  "2 powi (expo x) = 2 ^ 52 * ulp x" "2 powi (expo x + 1) = 2 ^ 53 * ulp x"
proof -
  show "2 powi (expo x) = 2 ^ 52 * ulp x"
    using power_int_add [of "2 :: real" 52 "expo x - 52"] by (simp add: ulp_def)
  have "expo x + 1 = 53 + (expo x - 52)" by simp
  then have "(2 :: real) powi (expo x + 1) = 2 powi 53 * 2 powi (expo x - 52)"
    using power_int_add [of "2 :: real" 53 "expo x - 52"] by (simp only:) simp
  then show "2 powi (expo x + 1) = 2 ^ 53 * ulp x" by (simp add: ulp_def)
qed

lemma significand_range:
  assumes "0 < x"
  shows "2 ^ 52 \<le> x / ulp x" and "x / ulp x < 2 ^ 53"
proof -
  note a = powi_ulp(1) [of x] and b = powi_ulp(2) [of x]
  from expo_bounds [OF assms] a b
  have "2 ^ 52 * ulp x \<le> x" "x < 2 ^ 53 * ulp x" by simp_all
  then show "2 ^ 52 \<le> x / ulp x" and "x / ulp x < 2 ^ 53"
    by (simp_all add: pos_le_divide_eq pos_divide_less_eq)
qed

lemma rte_significand:
  assumes "0 < x"
  shows "2 ^ 52 \<le> rte (x / ulp x)" and "rte (x / ulp x) \<le> 2 ^ 53"
proof -
  have "of_int (2 ^ 52) \<le> x / ulp x" using significand_range(1) [OF assms] by simp
  then show "2 ^ 52 \<le> rte (x / ulp x)" by (rule rte_ge)
  have "x / ulp x \<le> of_int (2 ^ 53)" using significand_range(2) [OF assms] by simp
  then show "rte (x / ulp x) \<le> 2 ^ 53" by (rule rte_le)
qed

lemma ulp_le: "0 < x \<Longrightarrow> ulp x \<le> x / 2 ^ 52"
  using significand_range(1) [of x] by (simp add: field_simps)

lemma fl64_0 [simp]: "fl64 0 = 0"
  by (simp add: fl64_def)

lemma fl64_error:
  assumes "0 \<le> x"
  shows "\<bar>fl64 x - x\<bar> \<le> x / 2 ^ 53"
proof (cases "x = 0")
  case True
  then show ?thesis by simp
next
  case False
  with assms have pos: "0 < x" by simp
  have "fl64 x - x = (of_int (rte (x / ulp x)) - x / ulp x) * ulp x"
    by (simp add: fl64_pos_eq [OF pos] algebra_simps)
  then have "\<bar>fl64 x - x\<bar> = \<bar>of_int (rte (x / ulp x)) - x / ulp x\<bar> * ulp x"
    by (simp add: abs_mult)
  also have "\<dots> \<le> 1 / 2 * ulp x"
    by (intro mult_right_mono rte_error) simp
  also have "\<dots> \<le> 1 / 2 * (x / 2 ^ 52)"
    using ulp_le [OF pos] by simp
  finally show ?thesis by simp
qed

lemma fl64_range:
  assumes "0 < x"
  shows "2 powi (expo x) \<le> fl64 x" and "fl64 x \<le> 2 powi (expo x + 1)"
proof -
  note a = powi_ulp(1) [of x] and b = powi_ulp(2) [of x]
  have "(2 :: real) ^ 52 \<le> of_int (rte (x / ulp x))"
    using rte_significand(1) [OF assms] by (metis of_int_le_iff of_int_numeral of_int_power)
  then show "2 powi (expo x) \<le> fl64 x"
    unfolding a fl64_pos_eq [OF assms] by (intro mult_right_mono) simp_all
  have "of_int (rte (x / ulp x)) \<le> (2 :: real) ^ 53"
    using rte_significand(2) [OF assms] by (metis of_int_le_iff of_int_numeral of_int_power)
  then show "fl64 x \<le> 2 powi (expo x + 1)"
    unfolding b fl64_pos_eq [OF assms] by (intro mult_right_mono) simp_all
qed

lemma fl64_pos:
  assumes "0 < x"
  shows "0 < fl64 x"
proof -
  have "0 < (2 :: real) powi (expo x)" by simp
  with fl64_range(1) [OF assms] show ?thesis by linarith
qed

lemma fl64_nonneg: "0 \<le> x \<Longrightarrow> 0 \<le> fl64 x"
  using fl64_pos [of x] by (cases "x = 0") simp_all

lemma expo_mono:
  assumes "0 < x" and "x \<le> y"
  shows "expo x \<le> expo y"
proof -
  have "0 < y" using assms by simp
  have "(2 :: real) powi (expo x) < 2 powi (expo y + 1)"
    using expo_bounds(1) [OF assms(1)] expo_bounds(2) [OF \<open>0 < y\<close>] assms(2) by linarith
  have "expo x < expo y + 1"
  proof (rule ccontr)
    assume "\<not> expo x < expo y + 1"
    then have "(2 :: real) powi (expo y + 1) \<le> 2 powi (expo x)"
      by (intro power_int_increasing) simp_all
    with \<open>2 powi (expo x) < 2 powi (expo y + 1)\<close> show False by simp
  qed
  then show ?thesis by simp
qed

lemma fl64_mono:
  assumes "0 \<le> x" and "x \<le> y"
  shows "fl64 x \<le> fl64 y"
proof (cases "x = 0")
  case True
  with assms show ?thesis by (simp add: fl64_nonneg)
next
  case False
  with assms have x: "0 < x" and y: "0 < y" by simp_all
  show ?thesis
  proof (cases "expo x = expo y")
    case True
    then have u: "ulp x = ulp y" by (simp add: ulp_def)
    have "x / ulp y \<le> y / ulp y" using assms(2) by (simp add: divide_right_mono)
    then have "rte (x / ulp y) \<le> rte (y / ulp y)" by (rule rte_mono)
    then have "of_int (rte (x / ulp y)) * ulp y \<le> of_int (rte (y / ulp y)) * ulp y"
      by (intro mult_right_mono) simp_all
    then show ?thesis by (simp add: fl64_pos_eq x y u)
  next
    case False
    with expo_mono [OF x assms(2)] have "expo x + 1 \<le> expo y" by simp
    then have "(2 :: real) powi (expo x + 1) \<le> 2 powi (expo y)"
      by (intro power_int_increasing) simp_all
    with fl64_range(2) [OF x] fl64_range(1) [OF y] show ?thesis by linarith
  qed
qed

lemma fl64_eval:
  assumes "2 powi k \<le> x" and "x < 2 powi (k + 1)"
  shows "fl64 x = of_int (rte (x / 2 powi (k - 52))) * 2 powi (k - 52)"
proof -
  have "0 < (2 :: real) powi k" by simp
  with assms(1) have pos: "0 < x" by linarith
  have "expo x = k" using assms by (rule expo_eq)
  then show ?thesis by (simp add: fl64_pos_eq [OF pos] ulp_def)
qed

lemma fl64_idem:
  assumes "0 \<le> x"
  shows "fl64 (fl64 x) = fl64 x"
proof (cases "x = 0")
  case True
  then show ?thesis by simp
next
  case False
  with assms have x: "0 < x" by simp
  define m where "m = rte (x / ulp x)"
  have y: "fl64 x = of_int m * ulp x" by (simp add: fl64_pos_eq [OF x] m_def)
  have m: "2 ^ 52 \<le> m" "m \<le> 2 ^ 53"
    using rte_significand [OF x] by (simp_all add: m_def)
  show ?thesis
  proof (cases "m = 2 ^ 53")
    case True
    then have top: "fl64 x = 2 powi (expo x + 1)" by (simp add: y powi_ulp(2))
    have "(2 :: real) powi (expo x + 1) < 2 powi (expo x + 1 + 1)"
      by (intro power_int_strict_increasing) simp_all
    then have "fl64 (2 powi (expo x + 1))
        = of_int (rte (2 powi (expo x + 1) / 2 powi (expo x + 1 - 52))) * 2 powi (expo x + 1 - 52)"
      by (intro fl64_eval) simp_all
    moreover have "(2 :: real) powi (expo x + 1) = 2 ^ 52 * 2 powi (expo x + 1 - 52)"
      by (rule powi_split)
    moreover have "rte (2 ^ 52) = 2 ^ 52"
      using rte_of_int [of "2 ^ 52"] by simp
    ultimately have "fl64 (2 powi (expo x + 1)) = 2 powi (expo x + 1)" by simp
    with top show ?thesis by simp
  next
    case False
    with m have lt: "m < 2 ^ 53" by simp
    have "(2 :: real) ^ 52 \<le> of_int m" "of_int m < (2 :: real) ^ 53"
      using m(1) lt by (metis of_int_le_iff of_int_numeral of_int_power,
          metis of_int_less_iff of_int_numeral of_int_power)
    then have "2 ^ 52 * ulp x \<le> of_int m * ulp x" "of_int m * ulp x < 2 ^ 53 * ulp x"
      by (simp_all add: mult_right_mono)
    then have "2 powi (expo x) \<le> fl64 x" "fl64 x < 2 powi (expo x + 1)"
      by (simp_all add: y powi_ulp)
    then have "fl64 (fl64 x)
        = of_int (rte (fl64 x / 2 powi (expo x - 52))) * 2 powi (expo x - 52)"
      by (rule fl64_eval)
    also have "fl64 x / 2 powi (expo x - 52) = of_int m"
      by (simp add: y ulp_def)
    finally show ?thesis by (simp add: y ulp_def)
  qed
qed

lemma fl64_ge_self_add:
  assumes "0 \<le> t" and "fl64 t = t" and "0 \<le> d"
  shows "t \<le> fl64 (t + d)"
  using fl64_mono [of t "t + d"] assms by simp

text \<open>The doubles of the concrete runs below.\<close>

lemma fl64_tenth: "fl64 (1 / 10) = 3602879701896397 / 36028797018963968"
  using fl64_eval [of "-4" "1 / 10"] by (simp add: rte_def)

lemma fl64_9_100: "fl64 (9 / 100) = 3242591731706757 / 36028797018963968"
  using fl64_eval [of "-4" "9 / 100"] by (simp add: rte_def)

lemma fl64_99_100: "fl64 (99 / 100) = 4458563631096791 / 4503599627370496"
  using fl64_eval [of "-1" "99 / 100"] by (simp add: rte_def)

lemma fl64_half: "fl64 (1 / 2) = 1 / 2"
  using fl64_eval [of "-1" "1 / 2"] by (simp add: rte_def)

lemma c4_L0: "fl64 (3422735716801577 / 18014398509481984) = 3422735716801577 / 18014398509481984"
  using fl64_eval [of "-3" "3422735716801577 / 18014398509481984"] by (simp add: rte_def)

lemma c4_n1: "fl64 (21256990241188741 / 36028797018963968) = 5314247560297185 / 9007199254740992"
  using fl64_eval [of "-1" "21256990241188741 / 36028797018963968"] by (simp add: rte_def)

lemma c4_L1: "fl64 (39271388750670725 / 36028797018963968) = 4908923593833841 / 4503599627370496"
  using fl64_eval [of "0" "39271388750670725 / 36028797018963968"] by (simp add: rte_def)

lemma c4_n2: "fl64 (9817847187667681 / 9007199254740992) = 306807724614615 / 281474976710656"
  using fl64_eval [of "0" "9817847187667681 / 9007199254740992"] by (simp add: rte_def)

lemma c4_n3: "fl64 (447545212969943 / 281474976710656) = 447545212969943 / 281474976710656"
  using fl64_eval [of "0" "447545212969943 / 281474976710656"] by (simp add: rte_def)

lemma fl64_tenth_idem: "fl64 (3602879701896397 / 36028797018963968) = 3602879701896397 / 36028797018963968"
  using fl64_eval [of "-4" "3602879701896397 / 36028797018963968"] by (simp add: rte_def)

lemma fl64_start: "fl64 (2 / 375) = 6148914691236517 / 1152921504606846976"
  using fl64_eval [of "-8" "2 / 375"] by (simp add: rte_def)

lemma fl64_start_idem: "fl64 (6148914691236517 / 1152921504606846976) = 6148914691236517 / 1152921504606846976"
  using fl64_eval [of "-8" "6148914691236517 / 1152921504606846976"] by (simp add: rte_def)

lemma fl64_timer: "fl64 (152 / 375) = 1825459048960841 / 4503599627370496"
  using fl64_eval [of "-2" "152 / 375"] by (simp add: rte_def)

lemma c3_L0: "fl64 (121441065151921221 / 1152921504606846976) = 1897516642998769 / 18014398509481984"
  using fl64_eval [of "-4" "121441065151921221 / 1152921504606846976"] by (simp add: rte_def)

lemma c3_n1: "fl64 (582609666994660005 / 1152921504606846976) = 4551638023395781 / 9007199254740992"
  using fl64_eval [of "-1" "582609666994660005 / 1152921504606846976"] by (simp add: rte_def)

lemma c3_L1: "fl64 (18206552093583125 / 36028797018963968) = 4551638023395781 / 9007199254740992"
  using fl64_eval [of "-1" "18206552093583125 / 36028797018963968"] by (simp add: rte_def)

lemma c3_U1: "fl64 (9055237650766277 / 9007199254740992) = 2263809412691569 / 2251799813685248"
  using fl64_eval [of "0" "9055237650766277 / 9007199254740992"] by (simp add: rte_def)

lemma c3_U0: "fl64 (10904715897739761 / 18014398509481984) = 681544743608735 / 1125899906842624"
  using fl64_eval [of "-1" "10904715897739761 / 18014398509481984"] by (simp add: rte_def)

section \<open>The scheduling loop on doubles\<close>

lemma nextNote64_fields [simp]:
  "bpm (nextNote64 m) = bpm m"
  "scheduleAheadTime (nextNote64 m) = scheduleAheadTime m"
  "nextNoteTime (nextNote64 m) = fl64 (nextNoteTime m + fl64 (60 / bpm m))"
  "isPlaying (nextNote64 m) = isPlaying m"
  "timerID (nextNote64 m) = timerID m"
  "lookahead (nextNote64 m) = lookahead m"
  by (simp_all add: nextNote64_def)

lemma advance_shift: "advance d k (fl64 (t + d)) = advance d (Suc k) t"
  by (induction k) simp_all

lemma beats64_0 [simp]: "beats64 m 0 = []"
  by (simp add: beats64_def)

lemma beats64_Suc_front: "beats64 m (Suc j) = nextNoteTime m # beats64 (nextNote64 m) j"
proof -
  have "[0..<Suc j] = 0 # map Suc [0..<j]"
    by (simp add: upt_conv_Cons map_Suc_upt del: upt_Suc)
  then show ?thesis
    by (simp add: beats64_def o_def advance_shift del: upt_Suc advance.simps(2))
qed

lemma advance_nonneg: "0 \<le> t \<Longrightarrow> 0 \<le> d \<Longrightarrow> 0 \<le> advance d k t"
  by (induction k) (simp_all add: fl64_nonneg)

lemma advance_double: "fl64 t = t \<Longrightarrow> 0 \<le> t \<Longrightarrow> 0 \<le> d \<Longrightarrow>
    fl64 (advance d k t) = advance d k t"
  by (cases k) (simp_all add: fl64_idem advance_nonneg)

lemma advance_mono_step:
  assumes "fl64 t = t" and "0 \<le> t" and "0 \<le> d"
  shows "advance d k t \<le> advance d (Suc k) t"
  using fl64_ge_self_add [of "advance d k t" d] assms
  by (simp add: advance_double advance_nonneg)

lemma advance_ge_start:
  assumes "fl64 t = t" and "0 \<le> t" and "0 \<le> d"
  shows "t \<le> advance d k t"
proof (induction k)
  case 0
  then show ?case by simp
next
  case (Suc k)
  with advance_mono_step [OF assms, of k] show ?case by linarith
qed

lemma progress:
  assumes "0 \<le> t" and "0 < d" and "t + d \<le> 2 ^ 52 * d"
  shows "t + d / 2 \<le> fl64 (t + d)"
proof -
  have "\<bar>fl64 (t + d) - (t + d)\<bar> \<le> (t + d) / 2 ^ 53"
    using assms by (intro fl64_error) simp
  moreover have "(t + d) / 2 ^ 53 \<le> d / 2"
    using assms(3) by (simp add: field_simps)
  ultimately show ?thesis by linarith
qed

lemma scheduler_loop64_result:
  assumes "0 < fl64 (60 / bpm m)" and "0 \<le> nextNoteTime m"
    and "fl64 (now + scheduleAheadTime m) + fl64 (60 / bpm m) \<le> 2 ^ 52 * fl64 (60 / bpm m)"
  shows "\<exists>j. scheduler_loop64 now m ns =
        Some (m\<lparr>nextNoteTime := advance (fl64 (60 / bpm m)) j (nextNoteTime m)\<rparr>,
              ns @ beats64 m j) \<and>
      fl64 (now + scheduleAheadTime m) \<le> advance (fl64 (60 / bpm m)) j (nextNoteTime m) \<and>
      (\<forall>k<j. advance (fl64 (60 / bpm m)) k (nextNoteTime m) < fl64 (now + scheduleAheadTime m))"
proof -
  define d where "d = fl64 (60 / bpm m)"
  define L where "L = fl64 (now + scheduleAheadTime m)"
  have d: "0 < d" using assms(1) by (simp add: d_def)
  obtain n where n: "(L - nextNoteTime m) / (d / 2) \<le> real n"
    using real_arch_simple by blast
  with d have "L \<le> nextNoteTime m + real n * (d / 2)"
    by (simp add: field_simps)
  then show ?thesis using assms(2,3) d_def L_def
  proof (induction n arbitrary: m ns)
    case 0
    then have "\<not> nextNoteTime m < fl64 (now + scheduleAheadTime m)" by simp
    then have "scheduler_loop64 now m ns = Some (m, ns)"
      by (subst scheduler_loop64.simps) simp
    with 0 show ?case by (intro exI [of _ 0]) simp
  next
    case (Suc n)
    show ?case
    proof (cases "nextNoteTime m < fl64 (now + scheduleAheadTime m)")
      case False
      then have "scheduler_loop64 now m ns = Some (m, ns)"
        by (subst scheduler_loop64.simps) simp
      with False show ?thesis by (intro exI [of _ 0]) simp
    next
      case True
      have step: "scheduler_loop64 now m ns =
          scheduler_loop64 now (nextNote64 m) (ns @ [nextNoteTime m])"
        using True by (subst scheduler_loop64.simps) (simp add: scheduleNote_def)
      have dm: "fl64 (60 / bpm m) = d" using Suc.prems(4) by simp
      have Lm: "fl64 (now + scheduleAheadTime m) = L" using Suc.prems(5) by simp
      have "nextNoteTime m + d \<le> 2 ^ 52 * d"
        using True Suc.prems(3) unfolding dm by simp
      with Suc.prems(2) d have gain: "nextNoteTime m + d / 2 \<le> fl64 (nextNoteTime m + d)"
        by (intro progress)
      have "nextNoteTime m + real (Suc n) * (d / 2)
          = nextNoteTime m + d / 2 + real n * (d / 2)"
        by (simp add: algebra_simps)
      with Suc.prems(1) gain
      have "L \<le> fl64 (nextNoteTime m + d) + real n * (d / 2)" by linarith
      then have a: "L \<le> nextNoteTime (nextNote64 m) + real n * (d / 2)"
        by (simp add: dm)
      have b: "0 \<le> nextNoteTime (nextNote64 m)"
        using Suc.prems(2) d dm by (simp add: fl64_nonneg)
      have c: "fl64 (now + scheduleAheadTime (nextNote64 m)) + fl64 (60 / bpm (nextNote64 m))
          \<le> 2 ^ 52 * fl64 (60 / bpm (nextNote64 m))"
        using Suc.prems(3) by simp
      from Suc.IH [OF a b c, of "ns @ [nextNoteTime m]"] dm Lm
      obtain j where j:
        "scheduler_loop64 now (nextNote64 m) (ns @ [nextNoteTime m]) =
           Some ((nextNote64 m)\<lparr>nextNoteTime := advance d j (nextNoteTime (nextNote64 m))\<rparr>,
                 (ns @ [nextNoteTime m]) @ beats64 (nextNote64 m) j)"
        "L \<le> advance d j (nextNoteTime (nextNote64 m))"
        "\<forall>k<j. advance d k (nextNoteTime (nextNote64 m)) < L"
        by auto
      have shift: "advance d k (nextNoteTime (nextNote64 m)) = advance d (Suc k) (nextNoteTime m)"
        for k
        using advance_shift [of d k "nextNoteTime m"] dm by simp
      have rec: "(nextNote64 m)\<lparr>nextNoteTime := advance d j (nextNoteTime (nextNote64 m))\<rparr>
          = m\<lparr>nextNoteTime := advance d (Suc j) (nextNoteTime m)\<rparr>"
        unfolding shift by (simp add: nextNote64_def)
      have below: "\<forall>k<Suc j. advance d k (nextNoteTime m) < L"
      proof (intro allI impI)
        fix k
        assume "k < Suc j"
        show "advance d k (nextNoteTime m) < L"
        proof (cases k)
          case 0
          with True Lm show ?thesis by simp
        next
          case (Suc k')
          with \<open>k < Suc j\<close> j(3) have "advance d k' (nextNoteTime (nextNote64 m)) < L" by simp
          with Suc show ?thesis unfolding shift by simp
        qed
      qed
      have "scheduler_loop64 now m ns =
          Some (m\<lparr>nextNoteTime := advance d (Suc j) (nextNoteTime m)\<rparr>, ns @ beats64 m (Suc j))"
        using step j(1) rec by (simp add: beats64_Suc_front)
      moreover have "L \<le> advance d (Suc j) (nextNoteTime m)"
        using j(2) unfolding shift .
      ultimately show ?thesis
        using below unfolding dm Lm by (intro exI [of _ "Suc j"]) blast
    qed
  qed
qed

lemma beat_length_pos: "0 < b \<Longrightarrow> 0 < fl64 (60 / b)"
  by (intro fl64_pos) simp

lemma in_range_bound:
  assumes "in_range now m" and "0 \<le> scheduleAheadTime m" and "0 < fl64 (60 / bpm m)"
  shows "fl64 (now + scheduleAheadTime m) + fl64 (60 / bpm m) \<le> 2 ^ 52 * fl64 (60 / bpm m)"
proof -
  define x where "x = now + scheduleAheadTime m"
  define d where "d = fl64 (60 / bpm m)"
  have x: "0 \<le> x" "x \<le> 2 ^ 51 * d"
    using assms(1,2) by (simp_all add: in_range_def x_def d_def)
  have "\<bar>fl64 x - x\<bar> \<le> x / 2 ^ 53" using x(1) by (rule fl64_error)
  then have "fl64 x \<le> x + x / 2 ^ 53" by linarith
  also have "\<dots> \<le> 2 ^ 51 * d + (2 ^ 51 * d) / 2 ^ 53"
    using x(2) by (intro add_mono divide_right_mono) simp_all
  finally have "fl64 x \<le> 2 ^ 51 * d + d / 4" by simp
  moreover have "0 < d" using assms(3) by (simp add: d_def)
  ultimately have "fl64 x + d \<le> 2 ^ 52 * d" by simp
  then show ?thesis by (simp add: x_def d_def)
qed

lemma scheduler64_pass:
  assumes "0 < bpm (metro w)" and "0 \<le> nextNoteTime (metro w)"
    and "0 \<le> scheduleAheadTime (metro w)" and "in_range now (metro w)"
  shows "\<exists>j w'. scheduler64 now w = Some w' \<and>
      triggers w' = triggers w @ beats64 (metro w) j \<and>
      nextNoteTime (metro w')
        = advance (fl64 (60 / bpm (metro w))) j (nextNoteTime (metro w)) \<and>
      bpm (metro w') = bpm (metro w) \<and>
      scheduleAheadTime (metro w') = scheduleAheadTime (metro w) \<and>
      isPlaying (metro w') = isPlaying (metro w) \<and>
      armed w' \<and>
      fl64 (now + scheduleAheadTime (metro w)) \<le> nextNoteTime (metro w') \<and>
      (\<forall>k<j. advance (fl64 (60 / bpm (metro w))) k (nextNoteTime (metro w))
               < fl64 (now + scheduleAheadTime (metro w)))"
proof -
  have d: "0 < fl64 (60 / bpm (metro w))" using assms(1) by (rule beat_length_pos)
  from scheduler_loop64_result [OF d assms(2) in_range_bound [OF assms(4,3) d], of "triggers w"]
  obtain j where j:
    "scheduler_loop64 now (metro w) (triggers w) =
       Some ((metro w)\<lparr>nextNoteTime :=
                advance (fl64 (60 / bpm (metro w))) j (nextNoteTime (metro w))\<rparr>,
             triggers w @ beats64 (metro w) j)"
    "fl64 (now + scheduleAheadTime (metro w))
       \<le> advance (fl64 (60 / bpm (metro w))) j (nextNoteTime (metro w))"
    "\<forall>k<j. advance (fl64 (60 / bpm (metro w))) k (nextNoteTime (metro w))
               < fl64 (now + scheduleAheadTime (metro w))"
    by blast
  show ?thesis
    using j by (intro exI [of _ j]) (simp add: scheduler64_def setTimeout_def Let_def armed_def)
qed

lemma tick64_pass:
  assumes "0 < bpm (metro w)" and "0 \<le> nextNoteTime (metro w)"
    and "0 \<le> scheduleAheadTime (metro w)" and "in_range now (metro w)" and "armed w"
  shows "\<exists>j w'. tick64 now w = Some w' \<and>
      triggers w' = triggers w @ beats64 (metro w) j \<and>
      nextNoteTime (metro w')
        = advance (fl64 (60 / bpm (metro w))) j (nextNoteTime (metro w)) \<and>
      bpm (metro w') = bpm (metro w) \<and>
      scheduleAheadTime (metro w') = scheduleAheadTime (metro w) \<and>
      isPlaying (metro w') = isPlaying (metro w) \<and>
      armed w' \<and>
      fl64 (now + scheduleAheadTime (metro w)) \<le> nextNoteTime (metro w') \<and>
      (\<forall>k<j. advance (fl64 (60 / bpm (metro w))) k (nextNoteTime (metro w))
               < fl64 (now + scheduleAheadTime (metro w)))"
proof -
  from assms(5) obtain i where i: "timerID (metro w) = Some i" "i \<in> set (timeouts w)"
    by (auto simp: armed_def split: option.splits)
  let ?w = "w\<lparr>timeouts := removeAll i (timeouts w)\<rparr>"
  have "tick64 now w = scheduler64 now ?w"
    using i by (simp add: tick64_def timeout_fires64_def)
  then show ?thesis using scheduler64_pass [of ?w now] assms(1-4) by simp
qed

lemma start64_pass:
  assumes "0 < bpm (metro w)" and "\<not> isPlaying (metro w)"
    and "0 \<le> scheduleAheadTime (metro w)" and "in_range now (metro w)"
  shows "\<exists>j w'. Metronome_toggle64 now w = Some w' \<and>
      triggers w' = triggers w @ beats64 ((metro w)\<lparr>nextNoteTime := now\<rparr>) j \<and>
      nextNoteTime (metro w') = advance (fl64 (60 / bpm (metro w))) j now \<and>
      bpm (metro w') = bpm (metro w) \<and>
      scheduleAheadTime (metro w') = scheduleAheadTime (metro w) \<and>
      isPlaying (metro w') \<and>
      armed w' \<and>
      fl64 (now + scheduleAheadTime (metro w)) \<le> nextNoteTime (metro w') \<and>
      (\<forall>k<j. advance (fl64 (60 / bpm (metro w))) k now
               < fl64 (now + scheduleAheadTime (metro w)))"
proof -
  let ?w = "w\<lparr>metro := (metro w)\<lparr>isPlaying := True, nextNoteTime := now\<rparr>\<rparr>"
  have "Metronome_toggle64 now w = scheduler64 now ?w"
    using assms(2) by (simp add: Metronome_toggle64_def Let_def)
  moreover have "0 \<le> now" "in_range now (metro ?w)"
    using assms(4) by (simp_all add: in_range_def)
  ultimately show ?thesis
    using scheduler64_pass [of ?w now] assms(1,3) by (simp add: beats64_def)
qed

section \<open>Bounds after a pass, on doubles\<close>

lemma in_range_same:
  "bpm m' = bpm m \<Longrightarrow> scheduleAheadTime m' = scheduleAheadTime m \<Longrightarrow>
     in_range now m' = in_range now m"
  by (simp add: in_range_def)

lemma advance_upper:
  assumes "0 \<le> t" and "0 \<le> d" and "\<forall>k<Suc j. advance d k t < L"
  shows "advance d (Suc j) t \<le> fl64 (L + d)"
proof -
  from assms(3) have "advance d j t < L" by simp
  moreover have "0 \<le> advance d j t + d"
    using advance_nonneg [OF assms(1,2), of j] assms(2) by simp
  ultimately show ?thesis by (simp add: fl64_mono)
qed

lemma passes64_bounds:
  "0 < bpm (metro w) \<Longrightarrow> 0 \<le> scheduleAheadTime (metro w) \<Longrightarrow> armed w \<Longrightarrow>
   isPlaying (metro w) \<Longrightarrow> fl64 (nextNoteTime (metro w)) = nextNoteTime (metro w) \<Longrightarrow>
   0 \<le> nextNoteTime (metro w) \<Longrightarrow> 0 \<le> prev \<Longrightarrow> bounds64 prev w \<Longrightarrow>
   sorted (prev # ts) \<Longrightarrow> list_all (\<lambda>now. in_range now (metro w)) ts \<Longrightarrow>
    \<exists>ws. passes64 w ts = Some ws \<and> list_all2 bounds64 ts ws \<and>
      sorted (map (\<lambda>w. nextNoteTime (metro w)) (w # ws)) \<and>
      list_all (\<lambda>w. isPlaying (metro w)) ws"
proof (induction ts arbitrary: w prev)
  case Nil
  then show ?case by simp
next
  case (Cons now ts)
  define d where "d = fl64 (60 / bpm (metro w))"
  define a where "a = scheduleAheadTime (metro w)"
  define t where "t = nextNoteTime (metro w)"
  have d: "0 < d" using Cons.prems(1) by (simp add: d_def beat_length_pos)
  have a: "0 \<le> a" using Cons.prems(2) by (simp add: a_def)
  have t: "fl64 t = t" "0 \<le> t" using Cons.prems(5,6) by (simp_all add: t_def)
  from Cons.prems(9) have order: "prev \<le> now" and sorted: "sorted (now # ts)" by simp_all
  from Cons.prems(10) have range: "in_range now (metro w)"
    and ranges: "list_all (\<lambda>now. in_range now (metro w)) ts" by simp_all
  from tick64_pass [OF Cons.prems(1,6,2) range Cons.prems(3)]
  obtain j w' where w': "tick64 now w = Some w'"
    "nextNoteTime (metro w') = advance d j t"
    "bpm (metro w') = bpm (metro w)"
    "scheduleAheadTime (metro w') = a"
    "isPlaying (metro w') = isPlaying (metro w)"
    "armed w'"
    "fl64 (now + a) \<le> nextNoteTime (metro w')"
    "\<forall>k<j. advance d k t < fl64 (now + a)"
    unfolding d_def a_def t_def by blast
  have upper: "nextNoteTime (metro w') \<le> fl64 (fl64 (now + a) + d)"
  proof (cases j)
    case 0
    from Cons.prems(8) have "t \<le> fl64 (fl64 (prev + a) + d)"
      by (simp add: bounds64_def d_def a_def t_def)
    moreover have "fl64 (prev + a) \<le> fl64 (now + a)"
      using order Cons.prems(7) a by (intro fl64_mono) simp_all
    then have "fl64 (fl64 (prev + a) + d) \<le> fl64 (fl64 (now + a) + d)"
      using d Cons.prems(7) a by (intro fl64_mono) (simp_all add: fl64_nonneg)
    ultimately show ?thesis using 0 w'(2) by simp
  next
    case (Suc k)
    with w'(8) have "\<forall>i<Suc k. advance d i t < fl64 (now + a)" by simp
    with t(2) d have "advance d (Suc k) t \<le> fl64 (fl64 (now + a) + d)"
      by (intro advance_upper) simp_all
    with Suc w'(2) show ?thesis by simp
  qed
  have bounds: "bounds64 now w'"
    using w'(3,4,7) upper by (simp add: bounds64_def d_def)
  have mono: "nextNoteTime (metro w) \<le> nextNoteTime (metro w')"
    using advance_ge_start [OF t, of d j] d w'(2) by (simp add: t_def)
  have p1: "0 < bpm (metro w')" using w'(3) Cons.prems(1) by simp
  have p2: "0 \<le> scheduleAheadTime (metro w')" using w'(4) a by simp
  have p4: "isPlaying (metro w')" using w'(5) Cons.prems(4) by simp
  have p5: "fl64 (nextNoteTime (metro w')) = nextNoteTime (metro w')"
    using advance_double [OF t, of d j] d w'(2) by simp
  have p6: "0 \<le> nextNoteTime (metro w')"
    using advance_nonneg [OF t(2), of d j] d w'(2) by simp
  have p7: "0 \<le> now" using order Cons.prems(7) by simp
  have p10: "list_all (\<lambda>now. in_range now (metro w')) ts"
    using ranges in_range_same [OF w'(3), of _] w'(4) by (simp add: a_def)
  from Cons.IH [OF p1 p2 w'(6) p4 p5 p6 p7 bounds sorted p10]
  obtain ws where ws: "passes64 w' ts = Some ws"
    "list_all2 bounds64 ts ws"
    "sorted (map (\<lambda>w. nextNoteTime (metro w)) (w' # ws))"
    "list_all (\<lambda>w. isPlaying (metro w)) ws"
    by blast
  have "sorted (map (\<lambda>w. nextNoteTime (metro w)) (w # w' # ws))"
    using ws(3) mono by (simp del: sorted_wrt.simps add: sorted2)
  moreover have "passes64 w (now # ts) = Some (w' # ws)"
    using w'(1) ws(1) by simp
  moreover have "list_all2 bounds64 (now # ts) (w' # ws)"
    using ws(2) bounds by simp
  moreover have "list_all (\<lambda>w. isPlaying (metro w)) (w' # ws)"
    using ws(4) p4 by simp
  ultimately show ?case by blast
qed

lemma start64_bounds:
  assumes "0 < bpm (metro w)" and "0 \<le> scheduleAheadTime (metro w)"
    and "\<not> isPlaying (metro w)" and "fl64 t0 = t0" and "in_range t0 (metro w)"
  shows "\<exists>w1. Metronome_toggle64 t0 w = Some w1 \<and> isPlaying (metro w1) \<and> armed w1 \<and>
    bpm (metro w1) = bpm (metro w) \<and>
    scheduleAheadTime (metro w1) = scheduleAheadTime (metro w) \<and>
    fl64 (nextNoteTime (metro w1)) = nextNoteTime (metro w1) \<and>
    0 \<le> nextNoteTime (metro w1) \<and> bounds64 t0 w1"
proof -
  define d where "d = fl64 (60 / bpm (metro w))"
  define a where "a = scheduleAheadTime (metro w)"
  have d: "0 < d" using assms(1) by (simp add: d_def beat_length_pos)
  have a: "0 \<le> a" using assms(2) by (simp add: a_def)
  have t0: "0 \<le> t0" using assms(5) by (simp add: in_range_def)
  from start64_pass [OF assms(1,3,2,5)]
  obtain j w1 where w1: "Metronome_toggle64 t0 w = Some w1"
    "nextNoteTime (metro w1) = advance d j t0"
    "bpm (metro w1) = bpm (metro w)"
    "scheduleAheadTime (metro w1) = a"
    "isPlaying (metro w1)" "armed w1"
    "fl64 (t0 + a) \<le> nextNoteTime (metro w1)"
    "\<forall>k<j. advance d k t0 < fl64 (t0 + a)"
    unfolding d_def a_def by blast
  have upper: "nextNoteTime (metro w1) \<le> fl64 (fl64 (t0 + a) + d)"
  proof (cases j)
    case 0
    have "t0 \<le> fl64 (t0 + a)" using t0 assms(4) a by (rule fl64_ge_self_add)
    moreover have "fl64 (fl64 (t0 + a)) = fl64 (t0 + a)"
      using t0 a by (intro fl64_idem) simp
    then have "fl64 (t0 + a) \<le> fl64 (fl64 (t0 + a) + d)"
      using t0 a d by (intro fl64_ge_self_add) (simp_all add: fl64_nonneg)
    ultimately show ?thesis using 0 w1(2) by simp
  next
    case (Suc k)
    with w1(8) have "\<forall>i<Suc k. advance d i t0 < fl64 (t0 + a)" by simp
    with t0 d have "advance d (Suc k) t0 \<le> fl64 (fl64 (t0 + a) + d)"
      by (intro advance_upper) simp_all
    with Suc w1(2) show ?thesis by simp
  qed
  have "bounds64 t0 w1" using w1(3,4,7) upper by (simp add: bounds64_def d_def)
  moreover have "fl64 (nextNoteTime (metro w1)) = nextNoteTime (metro w1)"
    using advance_double [OF assms(4) t0, of d j] d w1(2) by simp
  moreover have "0 \<le> nextNoteTime (metro w1)"
    using advance_nonneg [OF t0, of d j] d w1(2) by simp
  ultimately show ?thesis using w1(1,3,4,5,6) by (simp add: a_def)
qed

section \<open>The beat grid on doubles\<close>

lemma advance_add: "advance d j (advance d n t) = advance d (j + n) t"
  by (induction j) simp_all

lemma beats64_cong:
  "nextNoteTime m = nextNoteTime m' \<Longrightarrow> bpm m = bpm m' \<Longrightarrow> beats64 m j = beats64 m' j"
  by (simp add: beats64_def)

lemma beats64_append:
  "beats64 m (n + j) =
     beats64 m n @
     beats64 (m\<lparr>nextNoteTime := advance (fl64 (60 / bpm m)) n (nextNoteTime m)\<rparr>) j"
proof -
  define d where "d = fl64 (60 / bpm m)"
  have "[0..<n + j] = [0..<n] @ [n..<n + j]"
    by (rule upt_add_eq_append) simp
  moreover have "[n..<n + j] = map (\<lambda>k. k + n) [0..<j]"
    by (simp add: map_add_upt add.commute)
  ultimately have "[0..<n + j] = [0..<n] @ map (\<lambda>k. k + n) [0..<j]"
    by simp
  then have "map (\<lambda>k. advance d k (nextNoteTime m)) [0..<n + j] =
      map (\<lambda>k. advance d k (nextNoteTime m)) [0..<n] @
      map (\<lambda>k. advance d (k + n) (nextNoteTime m)) [0..<j]"
    by (simp add: o_def)
  then show ?thesis by (simp add: beats64_def d_def advance_add)
qed

lemma beats64_rounded_steps: "rounded_steps (fl64 (60 / bpm m)) (beats64 m n)"
proof (induction n arbitrary: m)
  case 0
  then show ?case by simp
next
  case (Suc n)
  show ?case
  proof (cases n)
    case 0
    then show ?thesis by (simp add: beats64_Suc_front)
  next
    case more: (Suc k)
    have "rounded_steps (fl64 (60 / bpm (nextNote64 m))) (beats64 (nextNote64 m) (Suc k))"
      using Suc.IH [of "nextNote64 m"] more by simp
    then show ?thesis
      using more by (simp add: beats64_Suc_front)
  qed
qed

lemma beats64_nonneg:
  "0 \<le> nextNoteTime m \<Longrightarrow> 0 \<le> d \<Longrightarrow> d = fl64 (60 / bpm m) \<Longrightarrow>
     list_all (\<lambda>x. 0 \<le> x) (beats64 m n)"
  by (simp add: beats64_def list_all_iff advance_nonneg)

lemma rounded_steps_within_rounding:
  "0 \<le> d \<Longrightarrow> list_all (\<lambda>x. 0 \<le> x) ts \<Longrightarrow> rounded_steps d ts \<Longrightarrow> within_rounding d ts"
proof (induction d ts rule: within_rounding.induct)
  case (1 d x y ts)
  from "1.prems"(3) have y: "y = fl64 (x + d)" and rest: "rounded_steps d (y # ts)"
    by auto
  from "1.prems"(2) have pos: "list_all (\<lambda>x. 0 \<le> x) (y # ts)" and "0 \<le> x"
    by simp_all
  with "1.prems"(1) have x: "0 \<le> x + d" by simp
  from x have "\<bar>fl64 (x + d) - (x + d)\<bar> \<le> (x + d) / 2 ^ 53" by (rule fl64_error)
  then have "\<bar>y - x - d\<bar> \<le> (x + d) / 2 ^ 53"
    unfolding y by (simp add: algebra_simps)
  moreover have "within_rounding d (y # ts)"
    using "1.IH" "1.prems"(1) pos rest by simp
  ultimately show ?case by simp
qed simp_all

lemma on_grid64_step:
  assumes "on_grid64 w0 t0 w"
    and "triggers w' = triggers w @ beats64 (metro w) j"
    and "nextNoteTime (metro w')
           = advance (fl64 (60 / bpm (metro w))) j (nextNoteTime (metro w))"
    and "bpm (metro w') = bpm (metro w)"
    and "scheduleAheadTime (metro w') = scheduleAheadTime (metro w)"
  shows "on_grid64 w0 t0 w'"
proof -
  let ?m0 = "(metro w0)\<lparr>nextNoteTime := t0\<rparr>"
  define d where "d = fl64 (60 / bpm (metro w0))"
  from assms(1) obtain n where n:
    "triggers w = triggers w0 @ beats64 ?m0 n"
    "nextNoteTime (metro w) = advance d n t0"
    "bpm (metro w) = bpm (metro w0)"
    "scheduleAheadTime (metro w) = scheduleAheadTime (metro w0)"
    by (auto simp: on_grid64_def d_def)
  have "beats64 (metro w) j
      = beats64 (?m0\<lparr>nextNoteTime := advance (fl64 (60 / bpm ?m0)) n (nextNoteTime ?m0)\<rparr>) j"
    using n by (intro beats64_cong) (simp_all add: d_def)
  then have "triggers w' = triggers w0 @ beats64 ?m0 (n + j)"
    using assms(2) n(1) by (simp add: beats64_append)
  moreover have "nextNoteTime (metro w') = advance d (n + j) t0"
    using assms(3) n by (simp add: advance_add d_def add.commute)
  ultimately show ?thesis
    unfolding on_grid64_def using assms(4,5) n(3,4)
    by (intro exI [of _ "n + j"]) (simp add: d_def)
qed

lemma passes64_on_grid:
  assumes "0 < bpm (metro w0)" and "0 \<le> scheduleAheadTime (metro w0)" and "0 \<le> t0"
  shows "on_grid64 w0 t0 w \<Longrightarrow> armed w \<Longrightarrow>
    list_all (\<lambda>now. in_range now (metro w0)) ts \<Longrightarrow>
    \<exists>ws. passes64 w ts = Some ws \<and> length ws = length ts \<and> list_all (on_grid64 w0 t0) ws"
proof (induction ts arbitrary: w)
  case Nil
  then show ?case by simp
next
  case (Cons now ts)
  have d: "0 \<le> fl64 (60 / bpm (metro w0))"
    using beat_length_pos [OF assms(1)] by simp
  from Cons.prems(1) obtain n where n:
    "nextNoteTime (metro w) = advance (fl64 (60 / bpm (metro w0))) n t0"
    "bpm (metro w) = bpm (metro w0)"
    "scheduleAheadTime (metro w) = scheduleAheadTime (metro w0)"
    by (auto simp: on_grid64_def)
  have p1: "0 < bpm (metro w)" using n(2) assms(1) by simp
  have p2: "0 \<le> nextNoteTime (metro w)"
    using advance_nonneg [OF assms(3) d, of n] n(1) by simp
  have p3: "0 \<le> scheduleAheadTime (metro w)" using n(3) assms(2) by simp
  have p4: "in_range now (metro w)"
    using Cons.prems(3) in_range_same [OF n(2,3)] by simp
  from tick64_pass [OF p1 p2 p3 p4 Cons.prems(2)]
  obtain j w' where w': "tick64 now w = Some w'"
    "triggers w' = triggers w @ beats64 (metro w) j"
    "nextNoteTime (metro w')
       = advance (fl64 (60 / bpm (metro w))) j (nextNoteTime (metro w))"
    "bpm (metro w') = bpm (metro w)"
    "scheduleAheadTime (metro w') = scheduleAheadTime (metro w)"
    "armed w'"
    by blast
  have grid: "on_grid64 w0 t0 w'"
    using Cons.prems(1) w'(2-5) by (rule on_grid64_step)
  from Cons.prems(3) have "list_all (\<lambda>now. in_range now (metro w0)) ts" by simp
  from Cons.IH [OF grid w'(6) this] obtain ws where
    "passes64 w' ts = Some ws" "length ws = length ts" "list_all (on_grid64 w0 t0) ws"
    by blast
  with w'(1) grid show ?case by simp
qed

section \<open>Concrete runs of the metronome on doubles\<close>

lemmas metronome64_defs =
  Metronome_toggle64_def scheduler64_def setTimeout_def scheduleNote_def nextNote64_def
  tick64_def timeout_fires64_def new_world64_def new_Metronome64_def

lemma c4_start:
  "Metronome_toggle64 (fl64 (9 / 100)) new_world64 =
     Some \<lparr>metro = \<lparr>isPlaying = True, bpm = 120,
                    nextNoteTime = 5314247560297185 / 9007199254740992, timerID = Some 1,
                    lookahead = 25, scheduleAheadTime = 3602879701896397 / 36028797018963968\<rparr>,
           triggers = [3242591731706757 / 36028797018963968], timeouts = [1], last_id = 1\<rparr>"
  by (simp add: metronome64_defs scheduler_loop64.simps fl64_tenth fl64_9_100 fl64_half c4_L0 c4_n1)

lemma c4_pass:
  "passes64 \<lparr>metro = \<lparr>isPlaying = True, bpm = 120,
                    nextNoteTime = 5314247560297185 / 9007199254740992, timerID = Some 1,
                    lookahead = 25, scheduleAheadTime = 3602879701896397 / 36028797018963968\<rparr>,
           triggers = [3242591731706757 / 36028797018963968], timeouts = [1], last_id = 1\<rparr>
      [fl64 (99 / 100)] =
     Some [\<lparr>metro = \<lparr>isPlaying = True, bpm = 120,
                    nextNoteTime = 447545212969943 / 281474976710656, timerID = Some 2,
                    lookahead = 25, scheduleAheadTime = 3602879701896397 / 36028797018963968\<rparr>,
           triggers = [3242591731706757 / 36028797018963968,
                       5314247560297185 / 9007199254740992,
                       306807724614615 / 281474976710656], timeouts = [2], last_id = 2\<rparr>]"
  by (simp add: metronome64_defs scheduler_loop64.simps fl64_99_100 fl64_half c4_L1 c4_n2 c4_n3)

lemma new_world64_fields:
  "triggers new_world64 = []" "bpm (metro new_world64) = 120"
  "\<not> isPlaying (metro new_world64)"
  "scheduleAheadTime (metro new_world64) = 3602879701896397 / 36028797018963968"
  by (simp_all add: new_world64_def new_Metronome64_def fl64_tenth)

lemma c3_zero_start:
  "Metronome_toggle64 0 new_world64 =
     Some \<lparr>metro = \<lparr>isPlaying = True, bpm = 120, nextNoteTime = 1 / 2, timerID = Some 1,
                    lookahead = 25, scheduleAheadTime = 3602879701896397 / 36028797018963968\<rparr>,
           triggers = [0], timeouts = [1], last_id = 1\<rparr>"
  by (simp add: metronome64_defs scheduler_loop64.simps fl64_tenth fl64_tenth_idem fl64_half)

lemma c3_start:
  "Metronome_toggle64 (fl64 (256 / 48000)) new_world64 =
     Some \<lparr>metro = \<lparr>isPlaying = True, bpm = 120,
                    nextNoteTime = 4551638023395781 / 9007199254740992, timerID = Some 1,
                    lookahead = 25, scheduleAheadTime = 3602879701896397 / 36028797018963968\<rparr>,
           triggers = [6148914691236517 / 1152921504606846976], timeouts = [1], last_id = 1\<rparr>"
  by (simp add: metronome64_defs scheduler_loop64.simps fl64_tenth fl64_start fl64_half
      c3_L0 c3_n1)

lemma c3_pass:
  "passes64 \<lparr>metro = \<lparr>isPlaying = True, bpm = 120,
                    nextNoteTime = 4551638023395781 / 9007199254740992, timerID = Some 1,
                    lookahead = 25, scheduleAheadTime = 3602879701896397 / 36028797018963968\<rparr>,
           triggers = [6148914691236517 / 1152921504606846976], timeouts = [1], last_id = 1\<rparr>
      [fl64 (19456 / 48000)] =
     Some [\<lparr>metro = \<lparr>isPlaying = True, bpm = 120,
                    nextNoteTime = 4551638023395781 / 9007199254740992, timerID = Some 2,
                    lookahead = 25, scheduleAheadTime = 3602879701896397 / 36028797018963968\<rparr>,
           triggers = [6148914691236517 / 1152921504606846976], timeouts = [2], last_id = 2\<rparr>]"
  by (simp add: metronome64_defs scheduler_loop64.simps fl64_timer c3_L1)

section \<open>Claims about the metronome\<close>

text \<open>
  C3, as stated: right after a scheduling pass the next event time lies in the interval
  from the clock reading to one lookahead window later. Started at clock reading 0, the
  constructed metronome emits the trigger 0 and leaves its first pass with the next event
  time at 1/2, beyond the window, which is the double nearest to 1/10.
\<close>

theorem next_event_beyond_window_counterexample:
  "\<exists>w1. Metronome_toggle64 0 new_world64 = Some w1 \<and> isPlaying (metro w1) \<and>
     triggers w1 = [0] \<and> nextNoteTime (metro w1) = 1 / 2 \<and>
     scheduleAheadTime (metro w1) = fl64 (1 / 10) \<and> fl64 (1 / 10) < 1 / 2 \<and>
     \<not> within_lookahead 0 w1"
  by (simp add: c3_zero_start within_lookahead_def fl64_tenth)

text \<open>
  C3, amended. Start a stopped metronome with positive tempo and a lookahead window that
  is not negative at a clock reading \<open>t0\<close>, a double, and let the driving timer fire at the
  readings \<open>ts\<close> of a clock that does not run backwards, every reading in the range
  where the end of its window is at most \<open>2\<^sup>5\<^sup>1\<close> beats. Every pass returns; the
  metronome stays running; the next event time never decreases from one pass to the next;
  and right after every pass, the one made by the start included, the next event time is
  at least the double \<open>now + window\<close> computed by the test of the loop, and at most the
  double sum of that and one beat.
\<close>

theorem next_event_time_after_each_pass:
  assumes "0 < bpm (metro w)" and "0 \<le> scheduleAheadTime (metro w)"
    and "\<not> isPlaying (metro w)" and "fl64 t0 = t0" and "sorted (t0 # ts)"
    and "list_all (\<lambda>now. in_range now (metro w)) (t0 # ts)"
  shows "\<exists>w1 ws. Metronome_toggle64 t0 w = Some w1 \<and> passes64 w1 ts = Some ws \<and>
    list_all (\<lambda>w'. isPlaying (metro w')) (w1 # ws) \<and>
    sorted (map (\<lambda>w'. nextNoteTime (metro w')) (w1 # ws)) \<and>
    list_all2 bounds64 (t0 # ts) (w1 # ws)"
proof -
  from assms(6) have r0: "in_range t0 (metro w)"
    and rs: "list_all (\<lambda>now. in_range now (metro w)) ts" by simp_all
  from start64_bounds [OF assms(1,2,3,4) r0]
  obtain w1 where w1: "Metronome_toggle64 t0 w = Some w1" "isPlaying (metro w1)" "armed w1"
    "bpm (metro w1) = bpm (metro w)"
    "scheduleAheadTime (metro w1) = scheduleAheadTime (metro w)"
    "fl64 (nextNoteTime (metro w1)) = nextNoteTime (metro w1)"
    "0 \<le> nextNoteTime (metro w1)" "bounds64 t0 w1"
    by blast
  have p1: "0 < bpm (metro w1)" using w1(4) assms(1) by simp
  have p2: "0 \<le> scheduleAheadTime (metro w1)" using w1(5) assms(2) by simp
  have p7: "0 \<le> t0" using r0 by (simp add: in_range_def)
  have p10: "list_all (\<lambda>now. in_range now (metro w1)) ts"
    using rs in_range_same [OF w1(4,5)] by simp
  from passes64_bounds [OF p1 p2 w1(3) w1(2) w1(6) w1(7) p7 w1(8) assms(5) p10]
  obtain ws where "passes64 w1 ts = Some ws" "list_all2 bounds64 ts ws"
    "sorted (map (\<lambda>w. nextNoteTime (metro w)) (w1 # ws))"
    "list_all (\<lambda>w. isPlaying (metro w)) ws"
    by blast
  with w1(1,2,8) show ?thesis by simp
qed

text \<open>
  The constructed metronome is started at the double nearest to 256/48000 and the timer
  fires at the double nearest to 19456/48000. Neither pass after the first trigger emits
  anything, and after the second pass the next event time is equal to the double
  \<open>now + window\<close> of the test, which lies \<open>2\<^sup>-\<^sup>5\<^sup>5\<close> below the exact sum of the clock
  reading and the window.
\<close>

theorem next_event_time_after_each_pass_witness:
  "0 < bpm (metro new_world64) \<and> 0 \<le> scheduleAheadTime (metro new_world64) \<and>
   \<not> isPlaying (metro new_world64) \<and>
   fl64 (fl64 (256 / 48000)) = fl64 (256 / 48000) \<and>
   sorted [fl64 (256 / 48000), fl64 (19456 / 48000)] \<and>
   list_all (\<lambda>now. in_range now (metro new_world64))
     [fl64 (256 / 48000), fl64 (19456 / 48000)] \<and>
   (\<exists>w1 ws. Metronome_toggle64 (fl64 (256 / 48000)) new_world64 = Some w1 \<and>
      passes64 w1 [fl64 (19456 / 48000)] = Some ws \<and>
      list_all2 bounds64 [fl64 (256 / 48000), fl64 (19456 / 48000)] (w1 # ws) \<and>
      map (\<lambda>w'. nextNoteTime (metro w')) (w1 # ws)
        = [4551638023395781 / 9007199254740992, 4551638023395781 / 9007199254740992] \<and>
      fl64 (fl64 (19456 / 48000) + fl64 (1 / 10)) = 4551638023395781 / 9007199254740992 \<and>
      (4551638023395781 / 9007199254740992 :: real)
        < fl64 (19456 / 48000) + fl64 (1 / 10))"
proof -
  have h: "0 < bpm (metro new_world64)" "0 \<le> scheduleAheadTime (metro new_world64)"
    "\<not> isPlaying (metro new_world64)"
    by (simp_all add: new_world64_def new_Metronome64_def fl64_tenth)
  have d: "fl64 (fl64 (256 / 48000)) = fl64 (256 / 48000)"
    by (simp add: fl64_start fl64_start_idem)
  have s: "sorted [fl64 (256 / 48000), fl64 (19456 / 48000)]"
    by (simp add: fl64_start fl64_timer)
  have r: "list_all (\<lambda>now. in_range now (metro new_world64))
     [fl64 (256 / 48000), fl64 (19456 / 48000)]"
    by (simp add: in_range_def new_world64_def new_Metronome64_def fl64_tenth fl64_start
        fl64_timer fl64_half)
  from next_event_time_after_each_pass [OF h d s r]
  obtain w1 ws where p:
    "Metronome_toggle64 (fl64 (256 / 48000)) new_world64 = Some w1"
    "passes64 w1 [fl64 (19456 / 48000)] = Some ws"
    "list_all2 bounds64 [fl64 (256 / 48000), fl64 (19456 / 48000)] (w1 # ws)"
    by blast
  from p(1) have w1: "w1 = \<lparr>metro = \<lparr>isPlaying = True, bpm = 120,
                    nextNoteTime = 4551638023395781 / 9007199254740992, timerID = Some 1,
                    lookahead = 25, scheduleAheadTime = 3602879701896397 / 36028797018963968\<rparr>,
           triggers = [6148914691236517 / 1152921504606846976], timeouts = [1], last_id = 1\<rparr>"
    unfolding c3_start by simp
  from p(2) have ws: "ws = [\<lparr>metro = \<lparr>isPlaying = True, bpm = 120,
                    nextNoteTime = 4551638023395781 / 9007199254740992, timerID = Some 2,
                    lookahead = 25, scheduleAheadTime = 3602879701896397 / 36028797018963968\<rparr>,
           triggers = [6148914691236517 / 1152921504606846976], timeouts = [2], last_id = 2\<rparr>]"
    unfolding w1 c3_pass by simp
  have n: "map (\<lambda>w'. nextNoteTime (metro w')) (w1 # ws)
        = [4551638023395781 / 9007199254740992, 4551638023395781 / 9007199254740992]"
    by (simp add: w1 ws)
  have e: "fl64 (fl64 (19456 / 48000) + fl64 (1 / 10)) = 4551638023395781 / 9007199254740992"
    by (simp add: fl64_timer fl64_tenth c3_L1)
  have l: "(4551638023395781 / 9007199254740992 :: real)
        < fl64 (19456 / 48000) + fl64 (1 / 10)"
    by (simp add: fl64_timer fl64_tenth)
  from p n e l have "\<exists>w1 ws. Metronome_toggle64 (fl64 (256 / 48000)) new_world64 = Some w1 \<and>
      passes64 w1 [fl64 (19456 / 48000)] = Some ws \<and>
      list_all2 bounds64 [fl64 (256 / 48000), fl64 (19456 / 48000)] (w1 # ws) \<and>
      map (\<lambda>w'. nextNoteTime (metro w')) (w1 # ws)
        = [4551638023395781 / 9007199254740992, 4551638023395781 / 9007199254740992] \<and>
      fl64 (fl64 (19456 / 48000) + fl64 (1 / 10)) = 4551638023395781 / 9007199254740992 \<and>
      (4551638023395781 / 9007199254740992 :: real)
        < fl64 (19456 / 48000) + fl64 (1 / 10)"
    by (intro exI [of _ w1] exI [of _ ws] conjI)
  with h d s r show ?thesis by (intro conjI)
qed

text \<open>
  C4, as stated: consecutive trigger times differ by exactly 60/bpm. The constructed
  metronome (120 bpm) is started at the double nearest to 0.09 and the timer fires at the
  double nearest to 0.99: three triggers are emitted, the first two \<open>1/2 - 2\<^sup>-\<^sup>5\<^sup>5\<close>
  apart and the last two \<open>1/2 - 2\<^sup>-\<^sup>5\<^sup>3\<close> apart.
\<close>

theorem consecutive_triggers_not_one_beat_apart_counterexample:
  "\<exists>w1 ws. Metronome_toggle64 (fl64 (9 / 100)) new_world64 = Some w1 \<and>
     passes64 w1 [fl64 (99 / 100)] = Some ws \<and>
     bpm (metro (last (w1 # ws))) = 120 \<and>
     emitted_since new_world64 (last (w1 # ws))
       = [3242591731706757 / 36028797018963968, 5314247560297185 / 9007199254740992,
          306807724614615 / 281474976710656] \<and>
     (5314247560297185 / 9007199254740992 - 3242591731706757 / 36028797018963968 :: real)
       = 60 / 120 - 1 / 2 ^ 55 \<and>
     (306807724614615 / 281474976710656 - 5314247560297185 / 9007199254740992 :: real)
       = 60 / 120 - 1 / 2 ^ 53 \<and>
     \<not> evenly_spaced (60 / 120) (emitted_since new_world64 (last (w1 # ws)))"
proof -
  let ?w1 = "\<lparr>metro = \<lparr>isPlaying = True, bpm = 120,
                    nextNoteTime = 5314247560297185 / 9007199254740992, timerID = Some 1,
                    lookahead = 25, scheduleAheadTime = 3602879701896397 / 36028797018963968\<rparr>,
           triggers = [3242591731706757 / 36028797018963968], timeouts = [1], last_id = 1\<rparr>"
  let ?w2 = "\<lparr>metro = \<lparr>isPlaying = True, bpm = 120,
                    nextNoteTime = 447545212969943 / 281474976710656, timerID = Some 2,
                    lookahead = 25, scheduleAheadTime = 3602879701896397 / 36028797018963968\<rparr>,
           triggers = [3242591731706757 / 36028797018963968,
                       5314247560297185 / 9007199254740992,
                       306807724614615 / 281474976710656], timeouts = [2], last_id = 2\<rparr>"
  have "Metronome_toggle64 (fl64 (9 / 100)) new_world64 = Some ?w1"
    by (rule c4_start)
  moreover have "passes64 ?w1 [fl64 (99 / 100)] = Some [?w2]"
    by (rule c4_pass)
  moreover have "bpm (metro (last (?w1 # [?w2]))) = 120"
    by simp
  moreover have "emitted_since new_world64 (last (?w1 # [?w2]))
       = [3242591731706757 / 36028797018963968, 5314247560297185 / 9007199254740992,
          306807724614615 / 281474976710656]"
    by (simp add: emitted_since_def new_world64_fields)
  moreover have
    "(5314247560297185 / 9007199254740992 - 3242591731706757 / 36028797018963968 :: real)
       = 60 / 120 - 1 / 2 ^ 55"
    by simp
  moreover have
    "(306807724614615 / 281474976710656 - 5314247560297185 / 9007199254740992 :: real)
       = 60 / 120 - 1 / 2 ^ 53"
    by simp
  moreover have "\<not> evenly_spaced (60 / 120) (emitted_since new_world64 (last (?w1 # [?w2])))"
    by (simp add: emitted_since_def new_world64_fields)
  ultimately show ?thesis
    by (intro exI [of _ ?w1] exI [of _ "[?w2]"] conjI)
qed

text \<open>
  C4, amended. Start a stopped metronome with positive tempo and a lookahead window that
  is not negative at clock reading \<open>t0\<close> and let the driving timer fire at any readings
  \<open>ts\<close>, in any order, every reading in the range where the end of its window is at most
  \<open>2\<^sup>5\<^sup>1\<close> beats. Every pass returns, and the tempo is never changed. The beat length
  used is the double nearest to 60/bpm, within \<open>2\<^sup>-\<^sup>5\<^sup>3\<close> of it relatively. After
  every pass the triggers emitted since the start are the first times of one sequence
  fixed by \<open>t0\<close> and the beat length alone: it begins at \<open>t0\<close> and every further time is
  the rounded sum of the time before it and the beat length. So the readings of the timer
  decide how many triggers have been emitted, never their times, and the gap between
  consecutive triggers differs from the beat length by at most the rounding error of one
  addition, \<open>2\<^sup>-\<^sup>5\<^sup>3\<close> relative to the sum.
\<close>

theorem triggers_follow_rounded_beats:
  assumes "0 < bpm (metro w)" and "0 \<le> scheduleAheadTime (metro w)"
    and "\<not> isPlaying (metro w)"
    and "list_all (\<lambda>now. in_range now (metro w)) (t0 # ts)"
  shows "\<exists>w1 ws. Metronome_toggle64 t0 w = Some w1 \<and> passes64 w1 ts = Some ws \<and>
    length ws = length ts \<and>
    \<bar>fl64 (60 / bpm (metro w)) - 60 / bpm (metro w)\<bar> \<le> 60 / bpm (metro w) / 2 ^ 53 \<and>
    list_all (\<lambda>w'. bpm (metro w') = bpm (metro w) \<and>
                  (\<exists>n. emitted_since w w' =
                         map (\<lambda>k. advance (fl64 (60 / bpm (metro w))) k t0) [0..<n]) \<and>
                  rounded_steps (fl64 (60 / bpm (metro w))) (emitted_since w w') \<and>
                  within_rounding (fl64 (60 / bpm (metro w))) (emitted_since w w'))
      (w1 # ws)"
proof -
  define d where "d = fl64 (60 / bpm (metro w))"
  let ?m0 = "(metro w)\<lparr>nextNoteTime := t0\<rparr>"
  have d: "0 < d" using assms(1) by (simp add: d_def beat_length_pos)
  from assms(4) have r0: "in_range t0 (metro w)"
    and rs: "list_all (\<lambda>now. in_range now (metro w)) ts" by simp_all
  have t0: "0 \<le> t0" using r0 by (simp add: in_range_def)
  from start64_pass [OF assms(1,3,2) r0]
  obtain j w1 where w1: "Metronome_toggle64 t0 w = Some w1"
    "triggers w1 = triggers w @ beats64 ?m0 j"
    "nextNoteTime (metro w1) = advance d j t0"
    "bpm (metro w1) = bpm (metro w)"
    "scheduleAheadTime (metro w1) = scheduleAheadTime (metro w)"
    "armed w1"
    unfolding d_def by blast
  have grid: "on_grid64 w t0 w1"
    unfolding on_grid64_def using w1(2-5) by (intro exI [of _ j]) (simp add: d_def)
  from passes64_on_grid [OF assms(1,2) t0 grid w1(6) rs]
  obtain ws where ws: "passes64 w1 ts = Some ws" "length ws = length ts"
    "list_all (on_grid64 w t0) ws"
    by blast
  have each: "bpm (metro w') = bpm (metro w) \<and>
      (\<exists>n. emitted_since w w' = map (\<lambda>k. advance d k t0) [0..<n]) \<and>
      rounded_steps d (emitted_since w w') \<and> within_rounding d (emitted_since w w')"
    if "on_grid64 w t0 w'" for w'
  proof -
    from that obtain n where
      "triggers w' = triggers w @ beats64 ?m0 n" "bpm (metro w') = bpm (metro w)"
      by (auto simp: on_grid64_def)
    then have b: "bpm (metro w') = bpm (metro w)" and e: "emitted_since w w' = beats64 ?m0 n"
      by (simp_all add: emitted_since_def)
    have r: "rounded_steps d (beats64 ?m0 n)"
      using beats64_rounded_steps [of ?m0 n] by (simp add: d_def)
    have "list_all (\<lambda>x. 0 \<le> x) (beats64 ?m0 n)"
      using t0 d by (intro beats64_nonneg [where d = d]) (simp_all add: d_def)
    with r d have "within_rounding d (beats64 ?m0 n)"
      by (intro rounded_steps_within_rounding) simp_all
    with b e r show ?thesis by (auto simp: beats64_def d_def)
  qed
  with grid ws(3) have "list_all (\<lambda>w'. bpm (metro w') = bpm (metro w) \<and>
      (\<exists>n. emitted_since w w' = map (\<lambda>k. advance d k t0) [0..<n]) \<and>
      rounded_steps d (emitted_since w w') \<and> within_rounding d (emitted_since w w'))
      (w1 # ws)"
    by (simp add: list_all_iff)
  moreover have "\<bar>fl64 (60 / bpm (metro w)) - 60 / bpm (metro w)\<bar>
      \<le> 60 / bpm (metro w) / 2 ^ 53"
    using assms(1) by (intro fl64_error) simp
  ultimately show ?thesis using w1(1) ws(1,2) unfolding d_def by blast
qed

text \<open>
  The run of the counterexample above: start at the double nearest to 0.09, timer at the
  double nearest to 0.99; the three triggers are rounded sums, each within the rounding
  error of one beat after the one before.
\<close>

theorem triggers_follow_rounded_beats_witness:
  "0 < bpm (metro new_world64) \<and> 0 \<le> scheduleAheadTime (metro new_world64) \<and>
   \<not> isPlaying (metro new_world64) \<and>
   list_all (\<lambda>now. in_range now (metro new_world64)) [fl64 (9 / 100), fl64 (99 / 100)] \<and>
   (\<exists>w1 ws. Metronome_toggle64 (fl64 (9 / 100)) new_world64 = Some w1 \<and>
      passes64 w1 [fl64 (99 / 100)] = Some ws \<and>
      emitted_since new_world64 (last (w1 # ws))
        = [3242591731706757 / 36028797018963968, 5314247560297185 / 9007199254740992,
           306807724614615 / 281474976710656] \<and>
      rounded_steps (fl64 (60 / 120))
        [3242591731706757 / 36028797018963968, 5314247560297185 / 9007199254740992,
         306807724614615 / 281474976710656] \<and>
      within_rounding (fl64 (60 / 120))
        [3242591731706757 / 36028797018963968, 5314247560297185 / 9007199254740992,
         306807724614615 / 281474976710656])"
proof -
  have h: "0 < bpm (metro new_world64)" "0 \<le> scheduleAheadTime (metro new_world64)"
    "\<not> isPlaying (metro new_world64)"
    by (simp_all add: new_world64_def new_Metronome64_def fl64_tenth)
  have r: "list_all (\<lambda>now. in_range now (metro new_world64))
     [fl64 (9 / 100), fl64 (99 / 100)]"
    by (simp add: in_range_def new_world64_def new_Metronome64_def fl64_tenth fl64_9_100
        fl64_99_100 fl64_half)
  have b: "bpm (metro new_world64) = 120"
    by (simp add: new_world64_def new_Metronome64_def)
  from triggers_follow_rounded_beats [OF h r]
  obtain w1 ws where p:
    "Metronome_toggle64 (fl64 (9 / 100)) new_world64 = Some w1"
    "passes64 w1 [fl64 (99 / 100)] = Some ws"
    "list_all (\<lambda>w'. rounded_steps (fl64 (60 / 120)) (emitted_since new_world64 w') \<and>
        within_rounding (fl64 (60 / 120)) (emitted_since new_world64 w')) (w1 # ws)"
    unfolding b by (auto simp: list_all_iff)
  from p(1) have w1: "w1 = \<lparr>metro = \<lparr>isPlaying = True, bpm = 120,
                    nextNoteTime = 5314247560297185 / 9007199254740992, timerID = Some 1,
                    lookahead = 25, scheduleAheadTime = 3602879701896397 / 36028797018963968\<rparr>,
           triggers = [3242591731706757 / 36028797018963968], timeouts = [1], last_id = 1\<rparr>"
    unfolding c4_start by simp
  from p(2) have ws: "ws = [\<lparr>metro = \<lparr>isPlaying = True, bpm = 120,
                    nextNoteTime = 447545212969943 / 281474976710656, timerID = Some 2,
                    lookahead = 25, scheduleAheadTime = 3602879701896397 / 36028797018963968\<rparr>,
           triggers = [3242591731706757 / 36028797018963968,
                       5314247560297185 / 9007199254740992,
                       306807724614615 / 281474976710656], timeouts = [2], last_id = 2\<rparr>]"
    unfolding w1 c4_pass by simp
  have e: "emitted_since new_world64 (last (w1 # ws))
        = [3242591731706757 / 36028797018963968, 5314247560297185 / 9007199254740992,
           306807724614615 / 281474976710656]"
    by (simp add: w1 ws emitted_since_def new_world64_fields)
  from p(3) have q0:
    "rounded_steps (fl64 (60 / 120)) (emitted_since new_world64 (last (w1 # ws)))"
    "within_rounding (fl64 (60 / 120)) (emitted_since new_world64 (last (w1 # ws)))"
    by (simp_all add: ws)
  have q1: "rounded_steps (fl64 (60 / 120))
        [3242591731706757 / 36028797018963968, 5314247560297185 / 9007199254740992,
         306807724614615 / 281474976710656]"
    using q0(1) unfolding e .
  have q2: "within_rounding (fl64 (60 / 120))
        [3242591731706757 / 36028797018963968, 5314247560297185 / 9007199254740992,
         306807724614615 / 281474976710656]"
    using q0(2) unfolding e .
  from p(1,2) e q1 q2 have "\<exists>w1 ws. Metronome_toggle64 (fl64 (9 / 100)) new_world64 = Some w1 \<and>
      passes64 w1 [fl64 (99 / 100)] = Some ws \<and>
      emitted_since new_world64 (last (w1 # ws))
        = [3242591731706757 / 36028797018963968, 5314247560297185 / 9007199254740992,
           306807724614615 / 281474976710656] \<and>
      rounded_steps (fl64 (60 / 120))
        [3242591731706757 / 36028797018963968, 5314247560297185 / 9007199254740992,
         306807724614615 / 281474976710656] \<and>
      within_rounding (fl64 (60 / 120))
        [3242591731706757 / 36028797018963968, 5314247560297185 / 9007199254740992,
         306807724614615 / 281474976710656]"
    by (intro exI [of _ w1] exI [of _ ws] conjI)
  with h r show ?thesis by (intro conjI)
qed

section \<open>Start, then stop ten milliseconds later, on doubles\<close>

text \<open>
  The count of the section on exact arithmetic holds on doubles as well: started at a
  clock reading \<open>t0\<close> between 0 and \<open>2\<^sup>4\<^sup>9\<close> seconds, the constructed metronome emits
  the one trigger \<open>t0\<close>; timer firings at readings up to \<open>t0 + 1/100\<close> emit nothing; and
  after the stop one trigger has been emitted and no timeout is pending.
\<close>

lemma window_below_beat:
  assumes "0 \<le> now" and "now \<le> t0 + 1 / 100"
  shows "\<not> fl64 (t0 + 1 / 2) < fl64 (now + fl64 (1 / 10))"
proof -
  have "now + fl64 (1 / 10) \<le> t0 + 1 / 2"
    using assms(2) by (simp add: fl64_tenth)
  moreover have "0 \<le> now + fl64 (1 / 10)"
    using assms(1) by (simp add: fl64_tenth)
  ultimately have "fl64 (now + fl64 (1 / 10)) \<le> fl64 (t0 + 1 / 2)"
    by (rule fl64_mono [rotated])
  then show ?thesis by simp
qed

lemma start_inside_window:
  assumes "0 \<le> t0" and "t0 \<le> 2 ^ 49"
  shows "t0 < fl64 (t0 + fl64 (1 / 10))"
proof -
  let ?x = "t0 + fl64 (1 / 10)"
  have "0 \<le> ?x" using assms(1) by (simp add: fl64_tenth)
  from fl64_error [OF this] have "?x - ?x / 2 ^ 53 \<le> fl64 ?x" by linarith
  moreover have "t0 < ?x - ?x / 2 ^ 53"
    using assms by (simp add: fl64_tenth field_simps)
  ultimately show ?thesis by linarith
qed

lemma start64_first_beat:
  assumes "0 \<le> t0" and "t0 \<le> 2 ^ 49"
  shows "\<exists>w1. Metronome_toggle64 t0 new_world64 = Some w1 \<and> first_beat_only64 t0 w1"
proof -
  let ?m = "\<lparr>isPlaying = True, bpm = 120, nextNoteTime = t0, timerID = None,
             lookahead = 25, scheduleAheadTime = fl64 (1 / 10)\<rparr>"
  have n: "nextNote64 ?m = ?m\<lparr>nextNoteTime := fl64 (t0 + 1 / 2)\<rparr>"
    by (simp add: nextNote64_def fl64_half)
  have "scheduler_loop64 t0 (nextNote64 ?m) [t0] = Some (nextNote64 ?m, [t0])"
    using window_below_beat [of t0 t0] assms(1)
    by (subst scheduler_loop64.simps) (simp add: n)
  then have "scheduler_loop64 t0 ?m [] = Some (nextNote64 ?m, [t0])"
    using start_inside_window [OF assms]
    by (subst scheduler_loop64.simps) (simp add: scheduleNote_def)
  then show ?thesis
    by (simp add: Metronome_toggle64_def new_world64_def new_Metronome64_def scheduler64_def
        setTimeout_def n first_beat_only64_def)
qed

lemma first_beat_only64_tick:
  assumes "first_beat_only64 t0 w" and "0 \<le> now" and "now \<le> t0 + 1 / 100"
  shows "\<exists>w'. tick64 now w = Some w' \<and> first_beat_only64 t0 w'"
proof -
  from assms(1) have w: "metro w = new_Metronome64\<lparr>isPlaying := True,
      nextNoteTime := fl64 (t0 + 1 / 2), timerID := Some (last_id w)\<rparr>"
    "triggers w = [t0]" "timeouts w = [last_id w]"
    by (simp_all add: first_beat_only64_def)
  have "scheduler_loop64 now (metro w) [t0] = Some (metro w, [t0])"
    using window_below_beat [OF assms(2,3)]
    by (subst scheduler_loop64.simps) (simp add: w(1) new_Metronome64_def)
  then show ?thesis
    using w
    by (simp add: tick64_def timeout_fires64_def scheduler64_def setTimeout_def
        first_beat_only64_def new_Metronome64_def)
qed

lemma first_beat_only64_passes:
  "first_beat_only64 t0 w \<Longrightarrow> \<forall>t \<in> set ts. 0 \<le> t \<and> t \<le> t0 + 1 / 100 \<Longrightarrow>
     \<exists>ws. passes64 w ts = Some ws \<and> first_beat_only64 t0 (last (w # ws))"
proof (induction ts arbitrary: w)
  case Nil
  then show ?case by simp
next
  case (Cons now ts)
  from Cons.prems have "0 \<le> now" "now \<le> t0 + 1 / 100" by simp_all
  from first_beat_only64_tick [OF Cons.prems(1) this]
  obtain w' where w': "tick64 now w = Some w'" "first_beat_only64 t0 w'" by blast
  from Cons.prems(2) have "\<forall>t \<in> set ts. 0 \<le> t \<and> t \<le> t0 + 1 / 100" by simp
  from Cons.IH [OF w'(2) this]
  obtain ws where "passes64 w' ts = Some ws" "first_beat_only64 t0 (last (w' # ws))" by blast
  with w'(1) show ?case by simp
qed

lemma start_stop_on_doubles:
  assumes "0 \<le> t0" and "t0 \<le> 2 ^ 49" and "\<forall>t \<in> set ts. 0 \<le> t \<and> t \<le> t0 + 1 / 100"
  shows "\<exists>w1 ws w2. Metronome_toggle64 t0 new_world64 = Some w1 \<and> triggers w1 = [t0] \<and>
     passes64 w1 ts = Some ws \<and> Metronome_toggle64 stop_time (last (w1 # ws)) = Some w2 \<and>
     triggers w2 = [t0] \<and> \<not> isPlaying (metro w2) \<and> timeouts w2 = []"
proof -
  from start64_first_beat [OF assms(1,2)]
  obtain w1 where w1: "Metronome_toggle64 t0 new_world64 = Some w1" "first_beat_only64 t0 w1"
    by blast
  from first_beat_only64_passes [OF w1(2) assms(3)]
  obtain ws where ws: "passes64 w1 ts = Some ws" "first_beat_only64 t0 (last (w1 # ws))"
    by blast
  from ws(2) have "\<exists>w2. Metronome_toggle64 stop_time (last (w1 # ws)) = Some w2 \<and>
      triggers w2 = [t0] \<and> \<not> isPlaying (metro w2) \<and> timeouts w2 = []"
    by (simp add: first_beat_only64_def Metronome_toggle64_def clearTimeout_def
        new_Metronome64_def)
  moreover have "triggers w1 = [t0]" using w1(2) by (simp add: first_beat_only64_def)
  ultimately show ?thesis using w1(1) ws(1) by blast
qed

end
